theory Spec2Isabelle
  imports Complex_Main "HOL-Library.Monad_Syntax"
begin

section \<open>EPANET-MSX water-quality engine: shallow embedding\<close>

text \<open>
  The C sources of the multi-species extension are embedded function by function.
  A C \<open>double\<close> is idealised as a \<open>real\<close> (no rounding, no NaN, no infinities), a C
  \<open>int\<close> as an \<open>int\<close> or, for array indices and counters that the code keeps
  non-negative, a \<open>nat\<close>. The arrays of the project are 1-based with slot 0 unused; an
  array whose bounds play no role in a property is a function from the index. Each record
  below is the part of the global \<open>MSX\<close> project structure that the embedded function
  reads or writes.
\<close>

subsection \<open>Species, nodes and tanks (msxtypes.h)\<close>

datatype SpeciesType = BULK | WALL

record Sspecies =
  species_type :: SpeciesType
  aTol :: real

record Snode =
  node_c :: "nat \<Rightarrow> real"
  node_c0 :: "nat \<Rightarrow> real"
  node_tank :: int

record Stank =
  tank_a :: real
  tank_c :: "nat \<Rightarrow> real"

record MSXproject =
  Species :: "nat \<Rightarrow> Sspecies"
  Node :: "nat \<Rightarrow> Snode"
  Tank :: "nat \<Rightarrow> Stank"

subsection \<open>Node quality query (msxqual.c, MSXqual_getNodeQual)\<close>

definition MSXqual_getNodeQual :: "MSXproject \<Rightarrow> nat \<Rightarrow> nat \<Rightarrow> real" where
  "MSXqual_getNodeQual MSX j m =
     (if species_type (Species MSX m) = WALL then 0
      else let k = node_tank (Node MSX j) in
        if k > 0 \<and> tank_a (Tank MSX (nat k)) > 0 then tank_c (Tank MSX (nat k)) m
        else node_c (Node MSX j) m)"

definition wall_project :: MSXproject where
  "wall_project =
     \<lparr>Species = (\<lambda>m. \<lparr>species_type = (if m = 2 then WALL else BULK), aTol = 1 / 100\<rparr>),
      Node = (\<lambda>j. \<lparr>node_c = (\<lambda>m. 7), node_c0 = (\<lambda>m. 7), node_tank = 1\<rparr>),
      Tank = (\<lambda>k. \<lparr>tank_a = 10, tank_c = (\<lambda>m. 3)\<rparr>)\<rparr>"

subsection \<open>Postfix expression evaluator (mathexpr.c, mathexpr_eval)\<close>

text \<open>
  A tokenized expression is the list of its nodes in \<open>next\<close> order. The value stack is the
  local array \<open>exprStack[MAX_STACK_SIZE]\<close>; C does not check the index, so an access
  outside \<open>0 .. MAX_STACK_SIZE - 1\<close> is undefined behaviour. The model makes every stack
  access explicit: \<open>stack_get\<close> and \<open>stack_set\<close> return \<open>None\<close> for an index outside
  the array, and the evaluation is \<open>None\<close> as soon as one access is.
\<close>

record ExprNode =
  opcode :: int
  ivar :: int
  fvalue :: real

definition MAX_STACK_SIZE :: int where
  "MAX_STACK_SIZE = 1024"

type_synonym exprStack = "int \<Rightarrow> real"

definition stack_get :: "exprStack \<Rightarrow> int \<Rightarrow> real option" where
  "stack_get s i = (if 0 \<le> i \<and> i < MAX_STACK_SIZE then Some (s i) else None)"

definition stack_set :: "exprStack \<Rightarrow> int \<Rightarrow> real \<Rightarrow> exprStack option" where
  "stack_set s i v = (if 0 \<le> i \<and> i < MAX_STACK_SIZE then Some (s(i := v)) else None)"

definition eval_binary :: "(real \<Rightarrow> real \<Rightarrow> real) \<Rightarrow> exprStack \<times> int \<Rightarrow> (exprStack \<times> int) option" where
  "eval_binary f st =
     (case st of (s, stackindex) \<Rightarrow>
        do {
          r1 \<leftarrow> stack_get s stackindex;
          let stackindex = stackindex - 1;
          r2 \<leftarrow> stack_get s stackindex;
          s \<leftarrow> stack_set s stackindex (f r2 r1);
          Some (s, stackindex)
        })"

definition eval_push :: "real \<Rightarrow> exprStack \<times> int \<Rightarrow> (exprStack \<times> int) option" where
  "eval_push v st =
     (case st of (s, stackindex) \<Rightarrow>
        do {
          let stackindex = stackindex + 1;
          s \<leftarrow> stack_set s stackindex v;
          Some (s, stackindex)
        })"

definition eval_unary :: "(real \<Rightarrow> real) \<Rightarrow> exprStack \<times> int \<Rightarrow> (exprStack \<times> int) option" where
  "eval_unary f st =
     (case st of (s, stackindex) \<Rightarrow>
        do {
          r1 \<leftarrow> stack_get s stackindex;
          s \<leftarrow> stack_set s stackindex (f r1);
          Some (s, stackindex)
        })"

definition eval_power :: "exprStack \<times> int \<Rightarrow> (exprStack \<times> int) option" where
  "eval_power st =
     (case st of (s, stackindex) \<Rightarrow>
        do {
          r1 \<leftarrow> stack_get s stackindex;
          let stackindex = stackindex - 1;
          if stackindex < 0 then Some (s, stackindex)
          else do {
            r2 \<leftarrow> stack_get s stackindex;
            let r2 = (if r2 \<le> 0 then 0 else r2 powr r1);
            s \<leftarrow> stack_set s stackindex r2;
            Some (s, stackindex)
          }
        })"

definition eval_node :: "(int \<Rightarrow> real) option \<Rightarrow> ExprNode \<Rightarrow> exprStack \<times> int \<Rightarrow> (exprStack \<times> int) option" where
  "eval_node getVariableValue node st =
     (let op = opcode node in
      if op = 3 then eval_binary (\<lambda>r2 r1. r2 + r1) st
      else if op = 4 then eval_binary (\<lambda>r2 r1. r2 - r1) st
      else if op = 5 then eval_binary (\<lambda>r2 r1. r2 * r1) st
      else if op = 6 then eval_binary (\<lambda>r2 r1. r2 / r1) st
      else if op = 7 then eval_push (fvalue node) st
      else if op = 8 then
        eval_push (case getVariableValue of Some g \<Rightarrow> g (ivar node) | None \<Rightarrow> 0) st
      else if op = 9 then eval_unary (\<lambda>r1. - r1) st
      else if op = 10 then eval_unary cos st
      else if op = 11 then eval_unary sin st
      else if op = 12 then eval_unary tan st
      else if op = 13 then eval_unary (\<lambda>r1. 1 / tan r1) st
      else if op = 14 then eval_unary abs st
      else if op = 15 then eval_unary (\<lambda>r1. if r1 < 0 then - 1 else if r1 > 0 then 1 else 0) st
      else if op = 16 then eval_unary sqrt st
      else if op = 17 then eval_unary ln st
      else if op = 18 then eval_unary exp st
      else if op = 19 then eval_unary arcsin st
      else if op = 20 then eval_unary arccos st
      else if op = 21 then eval_unary arctan st
      else if op = 22 then eval_unary (\<lambda>r1. 157079632679489661923 / 10 ^ 20 - arctan r1) st
      else if op = 23 then eval_unary (\<lambda>r1. (exp r1 - exp (- r1)) / 2) st
      else if op = 24 then eval_unary (\<lambda>r1. (exp r1 + exp (- r1)) / 2) st
      else if op = 25 then eval_unary (\<lambda>r1. (exp r1 - exp (- r1)) / (exp r1 + exp (- r1))) st
      else if op = 26 then eval_unary (\<lambda>r1. (exp r1 + exp (- r1)) / (exp r1 - exp (- r1))) st
      else if op = 27 then eval_unary (log 10) st
      else if op = 28 then eval_unary (\<lambda>r1. if r1 \<le> 0 then 0 else 1) st
      else if op = 31 then eval_power st
      else Some st)"

fun eval_nodes :: "(int \<Rightarrow> real) option \<Rightarrow> ExprNode list \<Rightarrow> exprStack \<times> int \<Rightarrow> (exprStack \<times> int) option" where
  "eval_nodes g [] st = Some st"
| "eval_nodes g (node # expr) st =
     (case eval_node g node st of None \<Rightarrow> None | Some st' \<Rightarrow> eval_nodes g expr st')"

definition mathexpr_eval :: "ExprNode list \<Rightarrow> (int \<Rightarrow> real) option \<Rightarrow> real option" where
  "mathexpr_eval expr getVariableValue =
     do {
       s \<leftarrow> stack_set (\<lambda>_. 0) 0 0;
       (s, stackindex) \<leftarrow> eval_nodes getVariableValue expr (s, 0);
       if stackindex \<ge> 0 then stack_get s stackindex else Some 0
     }"

definition op_node :: "int \<Rightarrow> ExprNode" where
  "op_node c = \<lparr>opcode = c, ivar = 0, fvalue = 0\<rparr>"

definition num_node :: "real \<Rightarrow> ExprNode" where
  "num_node v = \<lparr>opcode = 7, ivar = 0, fvalue = v\<rparr>"

subsection \<open>Cyclic term references (msxinp.c, checkCyclicTerms and traceTermPath)\<close>

text \<open>
  \<open>TermArray\<close> is the (n+1) x (n+1) matrix of doubles filled by \<open>parseTerm\<close>:
  \<open>TermArray[i][k] = 1.0\<close> when term \<open>k\<close> occurs in the expression of term \<open>i\<close>. Row 0
  holds the visited marks of the depth-first search. The recursion of \<open>traceTermPath\<close>
  is bounded by a depth counter (\<open>None\<close> when it is used up); \<open>checkCyclicTerms\<close> starts it
  at \<open>n + 1\<close>.
\<close>

type_synonym TermMatrix = "nat \<Rightarrow> nat \<Rightarrow> real"

fun traceTermPath :: "nat \<Rightarrow> TermMatrix \<Rightarrow> nat \<Rightarrow> nat \<Rightarrow> nat \<Rightarrow> (int \<times> TermMatrix) option"
  and traceTermPath_loop :: "nat \<Rightarrow> TermMatrix \<Rightarrow> nat \<Rightarrow> nat \<Rightarrow> nat \<Rightarrow> nat list \<Rightarrow> (int \<times> TermMatrix) option"
where
  "traceTermPath 0 TermArray i istar n = None"
| "traceTermPath (Suc depth) TermArray i istar n =
     (if TermArray 0 i = 1 then Some (0, TermArray)
      else traceTermPath_loop depth (TermArray(0 := (TermArray 0)(i := 1))) i istar n [1..<Suc n])"
| "traceTermPath_loop depth TermArray i istar n [] = Some (0, TermArray)"
| "traceTermPath_loop depth TermArray i istar n (j # js) =
     (if TermArray i j = 0 then traceTermPath_loop depth TermArray i istar n js
      else if j = istar then Some (1, TermArray)
      else case traceTermPath depth TermArray j istar n of
             None \<Rightarrow> None
           | Some (r, TermArray') \<Rightarrow>
               if r \<noteq> 0 then Some (1, TermArray')
               else traceTermPath_loop depth TermArray' i istar n js)"

definition clearTermRow0 :: "TermMatrix \<Rightarrow> nat \<Rightarrow> TermMatrix" where
  "clearTermRow0 TermArray n =
     TermArray(0 := (\<lambda>j. if 1 \<le> j \<and> j \<le> n then 0 else TermArray 0 j))"

fun checkCyclicTerms_loop :: "TermMatrix \<Rightarrow> nat \<Rightarrow> nat list \<Rightarrow> int option" where
  "checkCyclicTerms_loop TermArray n [] = Some 0"
| "checkCyclicTerms_loop TermArray n (i # is) =
     (case traceTermPath (Suc n) (clearTermRow0 TermArray n) i i n of
        None \<Rightarrow> None
      | Some (r, TermArray') \<Rightarrow>
          if r \<noteq> 0 then Some 1 else checkCyclicTerms_loop TermArray' n is)"

definition checkCyclicTerms :: "TermMatrix \<Rightarrow> nat \<Rightarrow> int option" where
  "checkCyclicTerms TermArray n = checkCyclicTerms_loop TermArray n [1..<n]"

definition createMatrix :: TermMatrix where
  "createMatrix = (\<lambda>i j. 0)"

definition setRef :: "TermMatrix \<Rightarrow> nat \<Rightarrow> nat \<Rightarrow> TermMatrix" where
  "setRef TermArray i k = TermArray(i := (TermArray i)(k := 1))"

definition MSXinp_readMsxData_check :: "TermMatrix \<Rightarrow> nat \<Rightarrow> nat \<Rightarrow> int option" where
  "MSXinp_readMsxData_check TermArray n errsum =
     (case checkCyclicTerms TermArray n of
        None \<Rightarrow> None
      | Some r \<Rightarrow> let errsum = (if r \<noteq> 0 then errsum + 1 else errsum)
                  in if errsum > 0 then Some 506 else Some 0)"

subsection \<open>Mass balance at the end of the simulation (msxqual.c, MSXqual_step)\<close>

text \<open>
  The last block of \<open>MSXqual_step\<close>. \<open>stored\<close> is what \<open>findstoredmass\<close> writes into
  \<open>MSX.MassBalance.final\<close>.
\<close>

record MassBalance =
  mb_initial :: "nat \<Rightarrow> real"
  mb_inflow :: "nat \<Rightarrow> real"
  mb_indisperse :: "nat \<Rightarrow> real"
  mb_outflow :: "nat \<Rightarrow> real"
  mb_reacted :: "nat \<Rightarrow> real"
  mb_final :: "nat \<Rightarrow> real"
  mb_ratio :: "nat \<Rightarrow> real"

record QualState =
  Nobj_SPECIES :: nat
  Nobj_LINK :: nat
  Nobj_TANK :: nat
  Link_reacted :: "nat \<Rightarrow> nat \<Rightarrow> real"
  Tank_reacted :: "nat \<Rightarrow> nat \<Rightarrow> real"
  MassBal :: MassBalance
  Saveflag :: bool

definition sum_reacted :: "QualState \<Rightarrow> nat \<Rightarrow> real" where
  "sum_reacted MSX m =
     (let sreacted = foldl (\<lambda>s k. s + Link_reacted MSX k m) 0 [1..<Suc (Nobj_LINK MSX)]
      in foldl (\<lambda>s k. s + Tank_reacted MSX k m) sreacted [1..<Suc (Nobj_TANK MSX)])"

definition species_balance :: "QualState \<Rightarrow> MassBalance \<Rightarrow> nat \<Rightarrow> MassBalance" where
  "species_balance MSX mb m =
     (let sreacted = sum_reacted MSX m;
          mb = mb\<lparr>mb_reacted := (mb_reacted mb)(m := sreacted)\<rparr>;
          smassin = mb_initial mb m + mb_inflow mb m + mb_indisperse mb m;
          smassout = mb_outflow mb m + mb_final mb m;
          smassout = (if sreacted < 0 then smassout - sreacted else smassout);
          smassin = (if sreacted < 0 then smassin else smassin + sreacted)
      in if smassin = 0 then mb\<lparr>mb_ratio := (mb_ratio mb)(m := 1)\<rparr>
         else mb\<lparr>mb_ratio := (mb_ratio mb)(m := smassout / smassin)\<rparr>)"

definition MSXqual_step_finalize :: "QualState \<Rightarrow> real \<Rightarrow> (nat \<Rightarrow> real) \<Rightarrow> QualState" where
  "MSXqual_step_finalize MSX tleft stored =
     (if tleft \<le> 0 \<and> Saveflag MSX then
        let mb = (MassBal MSX)\<lparr>mb_final := stored\<rparr>
        in MSX\<lparr>MassBal := foldl (species_balance MSX) mb [1..<Suc (Nobj_SPECIES MSX)]\<rparr>
      else MSX)"

definition balance_inputs_eq :: "MassBalance \<Rightarrow> MassBalance \<Rightarrow> bool" where
  "balance_inputs_eq a b \<longleftrightarrow>
     mb_initial a = mb_initial b \<and> mb_inflow a = mb_inflow b \<and>
     mb_indisperse a = mb_indisperse b \<and> mb_outflow a = mb_outflow b \<and> mb_final a = mb_final b"

definition zero_denominator_balance :: MassBalance where
  "zero_denominator_balance = \<lparr>mb_initial = (\<lambda>_. 0), mb_inflow = (\<lambda>_. 0), mb_indisperse = (\<lambda>_. 0),
           mb_outflow = (\<lambda>_. 5), mb_reacted = (\<lambda>_. 0), mb_final = (\<lambda>_. 0), mb_ratio = (\<lambda>_. 0)\<rparr>"

definition zero_denominator_state :: QualState where
  "zero_denominator_state = \<lparr>Nobj_SPECIES = 1, Nobj_LINK = 1, Nobj_TANK = 0, Link_reacted = (\<lambda>_ _. 0), Tank_reacted = (\<lambda>_ _. 0),
           MassBal = zero_denominator_balance, Saveflag = True\<rparr>"

definition sample_balance :: MassBalance where
  "sample_balance = \<lparr>mb_initial = (\<lambda>_. 1), mb_inflow = (\<lambda>_. 2), mb_indisperse = (\<lambda>_. 1),
           mb_outflow = (\<lambda>_. 3), mb_reacted = (\<lambda>_. 0), mb_final = (\<lambda>_. 0), mb_ratio = (\<lambda>_. 0)\<rparr>"

definition sample_state :: QualState where
  "sample_state = \<lparr>Nobj_SPECIES = 1, Nobj_LINK = 2, Nobj_TANK = 1,
           Link_reacted = (\<lambda>k m. if k = 1 then 4 else - 2), Tank_reacted = (\<lambda>_ _. 1),
           MassBal = sample_balance, Saveflag = True\<rparr>"

subsection \<open>Segment lists of a link (msxqual.c, MSXqual_reversesegs)\<close>

text \<open>
  Segments live in the segment pool; a \<open>Pseg\<close> is the address of a segment or \<open>NULL\<close>
  (\<open>None\<close>). \<open>segs\<close> maps an address to the segment stored there, \<open>FirstSeg[k]\<close> is the
  downstream end of the list of link \<open>k\<close>, \<open>LastSeg[k]\<close> its upstream end; \<open>prev\<close> points
  upstream and \<open>next\<close> downstream. The \<open>while (seg != NULL)\<close> loop of the reversal follows
  pointers in the store, so it is a partial function: \<open>None\<close> stands for a loop that does
  not end.
\<close>

type_synonym Pseg = "nat option"

record Sseg =
  seg_hstep :: real
  seg_v :: real
  seg_c :: "nat \<Rightarrow> real"
  seg_lastc :: "nat \<Rightarrow> real"
  seg_prev :: Pseg
  seg_next :: Pseg

record SegStore =
  segs :: "nat \<Rightarrow> Sseg"
  FirstSeg :: "nat \<Rightarrow> Pseg"
  LastSeg :: "nat \<Rightarrow> Pseg"

partial_function (option) reversesegs_loop :: "(nat \<Rightarrow> Sseg) \<Rightarrow> Pseg \<Rightarrow> Pseg \<Rightarrow> (nat \<Rightarrow> Sseg) option" where
  "reversesegs_loop h seg pseg =
     (case seg of
        None \<Rightarrow> Some h
      | Some s \<Rightarrow>
          let cseg = seg_prev (h s);
              h = h(s := (h s)\<lparr>seg_prev := pseg, seg_next := cseg\<rparr>)
          in reversesegs_loop h cseg (Some s))"

definition MSXqual_reversesegs :: "SegStore \<Rightarrow> nat \<Rightarrow> SegStore option" where
  "MSXqual_reversesegs MSX k =
     (let seg = FirstSeg MSX k;
          MSX = MSX\<lparr>FirstSeg := (FirstSeg MSX)(k := LastSeg MSX k)\<rparr>;
          MSX = MSX\<lparr>LastSeg := (LastSeg MSX)(k := seg)\<rparr>
      in case reversesegs_loop (segs MSX) seg None of
           None \<Rightarrow> None
         | Some h \<Rightarrow> Some (MSX\<lparr>segs := h\<rparr>))"

fun seg_path :: "(Sseg \<Rightarrow> Pseg) \<Rightarrow> (nat \<Rightarrow> Sseg) \<Rightarrow> Pseg \<Rightarrow> nat list \<Rightarrow> bool" where
  "seg_path fld h p [] = (p = None)"
| "seg_path fld h p (x # xs) = (p = Some x \<and> seg_path fld h (fld (h x)) xs)"

definition wf_seglist :: "SegStore \<Rightarrow> nat \<Rightarrow> nat list \<Rightarrow> bool" where
  "wf_seglist MSX k xs \<longleftrightarrow>
     seg_path seg_prev (segs MSX) (FirstSeg MSX k) xs \<and>
     seg_path seg_next (segs MSX) (LastSeg MSX k) (rev xs)"

text \<open>
  \<open>seg_path fld h p xs\<close>: following the pointer field \<open>fld\<close> from \<open>p\<close> visits exactly the
  addresses \<open>xs\<close> and then reaches \<open>NULL\<close>. The list of link \<open>k\<close> is well formed with
  segment sequence \<open>xs\<close> when \<open>prev\<close> leads from \<open>FirstSeg[k]\<close> through \<open>xs\<close> and \<open>next\<close>
  leads from \<open>LastSeg[k]\<close> through the reverse of \<open>xs\<close>.
\<close>

definition same_payload :: "Sseg \<Rightarrow> Sseg \<Rightarrow> bool" where
  "same_payload a b \<longleftrightarrow> a\<lparr>seg_prev := None, seg_next := None\<rparr> = b\<lparr>seg_prev := None, seg_next := None\<rparr>"

definition three_segs :: SegStore where
  "three_segs =
     \<lparr>segs = (\<lambda>a. \<lparr>seg_hstep = 0, seg_v = real a, seg_c = (\<lambda>m. 0), seg_lastc = (\<lambda>m. 0),
                     seg_prev = (if a = 1 then Some 2 else if a = 2 then Some 3 else None),
                     seg_next = (if a = 3 then Some 2 else if a = 2 then Some 1 else None)\<rparr>),
      FirstSeg = (\<lambda>k. if k = 1 then Some 1 else None),
      LastSeg = (\<lambda>k. if k = 1 then Some 3 else None)\<rparr>"

subsection \<open>Topological sort of the nodes (msxqual.c, sortNodes and selectnonstacknode)\<close>















subsection \<open>LU factorization (msxutils.c, factorize)\<close>

text \<open>
  Matrices and vectors are 1-based arrays of doubles. Every division of \<open>factorize\<close> goes
  through \<open>checked_div\<close>, which stops with \<open>DivisionByZero\<close> on a zero divisor, so that
  the absence of a division by zero is a property of the result. \<open>Inl SingularMatrix\<close> is
  the return value 0, \<open>Inr\<close> the return value 1 together with the arrays as they are left.
\<close>

type_synonym matrix = "nat \<Rightarrow> nat \<Rightarrow> real"
type_synonym vector = "nat \<Rightarrow> real"

definition TINY1 :: real where
  "TINY1 = 1 / 10 ^ 20"

datatype factor_stop = DivisionByZero | SingularMatrix

definition checked_div :: "real \<Rightarrow> real \<Rightarrow> factor_stop + real" where
  "checked_div x y = (if y = 0 then Inl DivisionByZero else Inr (x / y))"

definition mat_set :: "matrix \<Rightarrow> nat \<Rightarrow> nat \<Rightarrow> real \<Rightarrow> matrix" where
  "mat_set a i j v = a(i := (a i)(j := v))"

definition row_big :: "matrix \<Rightarrow> nat \<Rightarrow> nat \<Rightarrow> real" where
  "row_big a n i = foldl (\<lambda>big j. if \<bar>a i j\<bar> > big then \<bar>a i j\<bar> else big) 0 [1..<Suc n]"

fun scale_rows :: "matrix \<Rightarrow> nat \<Rightarrow> nat list \<Rightarrow> vector \<Rightarrow> factor_stop + vector" where
  "scale_rows a n [] w = Inr w"
| "scale_rows a n (i # is) w =
     (let big = row_big a n i in
      if big = 0 then Inl SingularMatrix
      else case checked_div 1 big of
             Inl e \<Rightarrow> Inl e
           | Inr s \<Rightarrow> scale_rows a n is (w(i := s)))"

definition inner_sum :: "matrix \<Rightarrow> nat \<Rightarrow> nat \<Rightarrow> nat \<Rightarrow> real" where
  "inner_sum a i j m = foldl (\<lambda>sum k. sum - a i k * a k j) (a i j) [1..<m]"

definition above_diagonal :: "matrix \<Rightarrow> nat \<Rightarrow> matrix" where
  "above_diagonal a j = foldl (\<lambda>a i. mat_set a i j (inner_sum a i j i)) a [1..<j]"

definition pivot_search :: "matrix \<Rightarrow> vector \<Rightarrow> nat \<Rightarrow> nat \<Rightarrow> matrix \<times> real \<times> nat" where
  "pivot_search a w j n =
     foldl (\<lambda>(a, big, imax) i.
              let sum = inner_sum a i j j;
                  a = mat_set a i j sum;
                  dum = w i * \<bar>sum\<bar>
              in if dum \<ge> big then (a, dum, i) else (a, big, imax))
           (a, 0, j) [j..<Suc n]"

definition swap_rows :: "matrix \<Rightarrow> nat \<Rightarrow> nat \<Rightarrow> nat \<Rightarrow> matrix" where
  "swap_rows a imax j n =
     foldl (\<lambda>a k. let dum = a imax k;
                      a = mat_set a imax k (a j k)
                  in mat_set a j k dum)
           a [1..<Suc n]"

definition select_pivot :: "matrix \<Rightarrow> vector \<Rightarrow> nat \<Rightarrow> nat \<Rightarrow> matrix \<times> vector \<times> nat" where
  "select_pivot a w j n =
     (let a = above_diagonal a j;
          (a, big, imax) = pivot_search a w j n
      in if j \<noteq> imax then (swap_rows a imax j n, w(imax := w j), imax)
         else (a, w, imax))"

definition divide_by_pivot :: "matrix \<Rightarrow> nat \<Rightarrow> nat \<Rightarrow> factor_stop + matrix" where
  "divide_by_pivot a j n =
     (let a = (if a j j = 0 then mat_set a j j TINY1 else a) in
      if j \<noteq> n then
        case checked_div 1 (a j j) of
          Inl e \<Rightarrow> Inl e
        | Inr dum \<Rightarrow> Inr (foldl (\<lambda>a i. mat_set a i j (a i j * dum)) a [Suc j..<Suc n])
      else Inr a)"

definition factorize_column :: "matrix \<Rightarrow> vector \<Rightarrow> (nat \<Rightarrow> nat) \<Rightarrow> nat \<Rightarrow> nat
    \<Rightarrow> factor_stop + matrix \<times> vector \<times> (nat \<Rightarrow> nat)" where
  "factorize_column a w indx j n =
     (case select_pivot a w j n of
        (a, w, imax) \<Rightarrow>
          (case divide_by_pivot a j n of
             Inl e \<Rightarrow> Inl e
           | Inr a \<Rightarrow> Inr (a, w, indx(j := imax))))"

fun factorize_columns :: "matrix \<Rightarrow> vector \<Rightarrow> (nat \<Rightarrow> nat) \<Rightarrow> nat list \<Rightarrow> nat
    \<Rightarrow> factor_stop + matrix \<times> vector \<times> (nat \<Rightarrow> nat)" where
  "factorize_columns a w indx [] n = Inr (a, w, indx)"
| "factorize_columns a w indx (j # js) n =
     (case factorize_column a w indx j n of
        Inl e \<Rightarrow> Inl e
      | Inr (a, w, indx) \<Rightarrow> factorize_columns a w indx js n)"

definition factorize :: "matrix \<Rightarrow> nat \<Rightarrow> vector \<Rightarrow> (nat \<Rightarrow> nat)
    \<Rightarrow> factor_stop + matrix \<times> vector \<times> (nat \<Rightarrow> nat)" where
  "factorize a n w indx =
     (case scale_rows a n [1..<Suc n] w of
        Inl e \<Rightarrow> Inl e
      | Inr w \<Rightarrow> factorize_columns a w indx [1..<Suc n] n)"

definition factorize_code :: "factor_stop + matrix \<times> vector \<times> (nat \<Rightarrow> nat) \<Rightarrow> int option" where
  "factorize_code r =
     (case r of Inl DivisionByZero \<Rightarrow> None | Inl SingularMatrix \<Rightarrow> Some 0 | Inr _ \<Rightarrow> Some 1)"

definition factorize_before :: "matrix \<Rightarrow> nat \<Rightarrow> vector \<Rightarrow> (nat \<Rightarrow> nat) \<Rightarrow> nat
    \<Rightarrow> factor_stop + matrix \<times> vector \<times> (nat \<Rightarrow> nat)" where
  "factorize_before a n w indx j =
     (case scale_rows a n [1..<Suc n] w of
        Inl e \<Rightarrow> Inl e
      | Inr w \<Rightarrow> factorize_columns a w indx [1..<j] n)"

definition selected_pivot :: "matrix \<Rightarrow> nat \<Rightarrow> vector \<Rightarrow> (nat \<Rightarrow> nat) \<Rightarrow> nat \<Rightarrow> real option" where
  "selected_pivot a n w indx j =
     (case factorize_before a n w indx j of
        Inl e \<Rightarrow> None
      | Inr (b, v, ix) \<Rightarrow> Some (fst (select_pivot b v j n) j j))"

text \<open>
  \<open>factorize_before a n w indx j\<close> is \<open>factorize\<close> stopped at the start of the pass of
  the column loop for column \<open>j\<close>, and \<open>selected_pivot a n w indx j\<close> is the value of
  \<open>a[j][j]\<close> in that pass after the row interchange, at the test \<open>if (a[j][j] == 0.0)\<close>;
  it is \<open>None\<close> if \<open>factorize\<close> has returned before.
\<close>

definition ones_matrix :: matrix where
  "ones_matrix = (\<lambda>i j. 1)"

definition tiny_pivot_matrix :: matrix where
  "tiny_pivot_matrix = (\<lambda>i j. if i = 1 \<and> j = 1 then 1 / 10 ^ 30
                               else if i = 2 \<and> j = 1 then 1 / (2 * 10 ^ 30)
                               else if i = 2 \<and> j = 2 then 1 else 0)"

subsection \<open>Numerical Jacobian and back-substitution (msxutils.c, jacobian and solve)\<close>

text \<open>
  The callback \<open>func(t, x, n, f)\<close> is a function of \<open>t\<close>, \<open>x\<close> and \<open>n\<close> that writes
  \<open>f[1..n]\<close> and leaves \<open>x\<close> alone.
\<close>

type_synonym rhs = "real \<Rightarrow> vector \<Rightarrow> nat \<Rightarrow> vector"

definition call_func :: "rhs \<Rightarrow> real \<Rightarrow> vector \<Rightarrow> nat \<Rightarrow> vector \<Rightarrow> vector" where
  "call_func func t x n f = (\<lambda>i. if 1 \<le> i \<and> i \<le> n then func t x n i else f i)"

definition jacobian_column :: "rhs \<Rightarrow> nat \<Rightarrow> vector \<times> vector \<times> vector \<times> matrix \<Rightarrow> nat
    \<Rightarrow> vector \<times> vector \<times> vector \<times> matrix" where
  "jacobian_column func n st j =
     (case st of (x, f, w, a) \<Rightarrow>
        let eps = 1 / 10 ^ 7;
            temp = x j;
            x = x(j := temp + eps);
            f = call_func func 0 x n f;
            (x, eps2) = (if temp = 0 then (x(j := temp), eps) else (x(j := temp - eps), 2 * eps));
            w = call_func func 0 x n w;
            a = foldl (\<lambda>a i. mat_set a i j ((f i - w i) / eps2)) a [1..<Suc n];
            x = x(j := temp)
        in (x, f, w, a))"

definition jacobian :: "vector \<Rightarrow> nat \<Rightarrow> vector \<Rightarrow> vector \<Rightarrow> matrix \<Rightarrow> rhs
    \<Rightarrow> vector \<times> vector \<times> vector \<times> matrix" where
  "jacobian x n f w a func = foldl (jacobian_column func n) (x, f, w, a) [1..<Suc n]"

definition solve_forward :: "matrix \<Rightarrow> (nat \<Rightarrow> nat) \<Rightarrow> vector \<times> nat \<Rightarrow> nat \<Rightarrow> vector \<times> nat" where
  "solve_forward a indx st i =
     (case st of (b, ii) \<Rightarrow>
        let ip = indx i;
            sum = b ip;
            b = b(ip := b i);
            sum = (if ii \<noteq> 0 then foldl (\<lambda>sum j. sum - a i j * b j) sum [ii..<i] else sum);
            ii = (if ii \<noteq> 0 then ii else if sum \<noteq> 0 then i else ii)
        in (b(i := sum), ii))"

definition solve_backward :: "matrix \<Rightarrow> nat \<Rightarrow> vector \<Rightarrow> nat \<Rightarrow> vector" where
  "solve_backward a n b i =
     (let sum = foldl (\<lambda>sum j. sum - a i j * b j) (b i) [Suc i..<Suc n]
      in b(i := sum / a i i))"

definition solve :: "matrix \<Rightarrow> nat \<Rightarrow> (nat \<Rightarrow> nat) \<Rightarrow> vector \<Rightarrow> vector" where
  "solve a n indx b =
     (let (b, ii) = foldl (solve_forward a indx) (b, 0) [1..<Suc n]
      in foldl (solve_backward a n) b (rev [1..<Suc n]))"

record MSXNewton =
  Nmax :: nat
  Indx :: "nat \<Rightarrow> nat"
  F :: vector
  W :: vector
  J :: matrix

definition relconvg_of :: "int \<Rightarrow> real" where
  "relconvg_of numsig = (if numsig \<ge> 0 then 1 / 10 ^ nat numsig else 10 ^ nat (- numsig))"

definition newton_update_step :: "vector \<Rightarrow> real \<Rightarrow> vector \<times> real \<Rightarrow> nat \<Rightarrow> vector \<times> real" where
  "newton_update_step Fv relconvg st i =
     (case st of (x, errmax) \<Rightarrow>
        let cscal = x i;
            cscal = (if cscal < relconvg then relconvg else cscal);
            x = x(i := x i + Fv i);
            errx = \<bar>Fv i / cscal\<bar>
        in (x, if errx > errmax then errx else errmax))"

definition newton_update :: "vector \<Rightarrow> vector \<Rightarrow> nat \<Rightarrow> real \<Rightarrow> vector \<times> real" where
  "newton_update x Fv n relconvg = foldl (newton_update_step Fv relconvg) (x, 0) [1..<Suc n]"

definition newton_delta :: "MSXNewton \<Rightarrow> vector \<Rightarrow> nat \<Rightarrow> rhs \<Rightarrow> MSXNewton option" where
  "newton_delta S x n func =
     (case jacobian x n (F S) (W S) (J S) func of
        (x, f, w, a) \<Rightarrow>
          (case factorize a n w (Indx S) of
             Inl e \<Rightarrow> None
           | Inr (a, w, indx) \<Rightarrow>
               let f = (\<lambda>i. if 1 \<le> i \<and> i \<le> n then - f i else f i);
                   f = solve a n indx f
               in Some (S\<lparr>Indx := indx, F := f, W := w, J := a\<rparr>)))"

datatype newton_step = StepSingular | StepConverged vector MSXNewton | StepContinue vector MSXNewton

definition newton_iteration :: "MSXNewton \<Rightarrow> vector \<Rightarrow> nat \<Rightarrow> real \<Rightarrow> rhs \<Rightarrow> newton_step" where
  "newton_iteration S x n relconvg func =
     (case newton_delta S x n func of
        None \<Rightarrow> StepSingular
      | Some S \<Rightarrow>
          (case newton_update x (F S) n relconvg of
             (x, errmax) \<Rightarrow>
               if errmax \<le> relconvg then StepConverged x S else StepContinue x S))"

function newton_loop :: "nat \<Rightarrow> int \<Rightarrow> real \<Rightarrow> rhs \<Rightarrow> int \<Rightarrow> MSXNewton \<Rightarrow> vector \<Rightarrow> int \<times> vector" where
  "newton_loop n maxit relconvg func k S x =
     (if k \<le> maxit then
        (case newton_iteration S x n relconvg func of
           StepSingular \<Rightarrow> (- 1, x)
         | StepConverged x S \<Rightarrow> (k, x)
         | StepContinue x S \<Rightarrow> newton_loop n maxit relconvg func (k + 1) S x)
      else (- 2, x))"
  by pat_completeness auto
termination
  by (relation "measure (\<lambda>(n, maxit, relconvg, func, k, S, x). nat (maxit + 1 - k))") auto

definition newton_solve :: "MSXNewton \<Rightarrow> vector \<Rightarrow> nat \<Rightarrow> int \<Rightarrow> int \<Rightarrow> rhs \<Rightarrow> int \<times> vector" where
  "newton_solve S x n maxit numsig func =
     (let relconvg = relconvg_of numsig in
      if n > Nmax S then (- 3, x)
      else newton_loop n maxit relconvg func 1 S x)"

definition solver1 :: MSXNewton where
  "solver1 = \<lparr>Nmax = 1, Indx = (\<lambda>_. 0), F = (\<lambda>_. 0), W = (\<lambda>_. 0), J = (\<lambda>_ _. 0)\<rparr>"

definition shifted_line :: "real \<Rightarrow> rhs" where
  "shifted_line c = (\<lambda>t x n i. x i - c)"

definition jump_at_zero :: rhs where
  "jump_at_zero = (\<lambda>t x n i. if x i = 0 then 9999999 else 10000000)"

fun newton_after :: "nat \<Rightarrow> real \<Rightarrow> rhs \<Rightarrow> nat \<Rightarrow> MSXNewton \<Rightarrow> vector \<Rightarrow> (MSXNewton \<times> vector) option" where
  "newton_after n relconvg func 0 S x = Some (S, x)"
| "newton_after n relconvg func (Suc j) S x =
     (case newton_iteration S x n relconvg func of
        StepContinue x' S' \<Rightarrow> newton_after n relconvg func j S' x'
      | _ \<Rightarrow> None)"

definition newton_outcome :: "nat \<Rightarrow> real \<Rightarrow> rhs \<Rightarrow> nat \<Rightarrow> MSXNewton \<Rightarrow> vector \<Rightarrow> newton_step option" where
  "newton_outcome n relconvg func j S x =
     (case newton_after n relconvg func j S x of
        None \<Rightarrow> None
      | Some (S', x') \<Rightarrow> Some (newton_iteration S' x' n relconvg func))"

definition spec_converged :: "vector \<Rightarrow> vector \<Rightarrow> nat \<Rightarrow> int \<Rightarrow> bool" where
  "spec_converged x dx n numsig \<longleftrightarrow>
     Max ((\<lambda>i. \<bar>dx i\<bar> / max \<bar>x i\<bar> (relconvg_of numsig)) ` {1..n}) < relconvg_of numsig"

text \<open>
  The convergence test in the words of the specification: the maximum over i of
  |dx[i]| / max(|x[i]|, 10^(-numsig)) is strictly below 10^(-numsig).
\<close>

declare newton_loop.simps [simp del]

subsection \<open>Segment budget of a link (msxqual.c, msxinp.c, msxproj.c, dispersion.h)\<close>























subsection \<open>Runge-Kutta integration (rk5.c, msxchem.c)\<close>

text \<open>
  \<open>rk5_integrate\<close> is modelled with the doubles of the code idealised as reals (a division
  by zero yields 0 here). The arrays \<open>y\<close>, \<open>K1\<close> .. \<open>K6\<close> and \<open>Ynew\<close> are functions of the
  index, of which the code uses \<open>1..n\<close>; \<open>vec_assign\<close> is a loop \<open>for (i=1; i<=n; i++)\<close>
  that assigns one array. \<open>rk5_state\<close> holds the variables that the loop of
  \<open>rk5_integrate\<close> changes other than the two counters \<open>nstep\<close> and \<open>nfcn\<close>, which are
  arguments of \<open>rk5_loop\<close>; \<open>rk5_args\<close> holds the ones it only reads. \<open>rk5_start\<close> is the
  code before the loop (with \<open>nstep = 1\<close> and \<open>nfcn = 1\<close> after the initial evaluation),
  \<open>rk5_stage2\<close> .. \<open>rk5_stage7\<close> are the six evaluations of one step, \<open>rk5_error\<close> is the
  step size adjustment, \<open>rk5_accept\<close> and \<open>rk5_rejected\<close> the two branches on \<open>err <= 1.0\<close>,
  and \<open>rk5_loop\<close> the \<open>while\<close> loop, which returns the code together with the final
  state. \<open>MSXchem_open\<close> opens the solver with \<open>rk5_open(NumSpecies, 1000, 1)\<close>, which is
  \<open>rk5_solver\<close>. \<open>rk5_path p s j\<close> is the state after \<open>j\<close> passes of the loop body from
  \<open>s\<close>, when in none of the states before it the interval has ended (\<open>t >= tnext\<close>) or the
  zero step test holds; it does not count steps against \<open>Itmax\<close>.
\<close>

definition fmin :: "real \<Rightarrow> real \<Rightarrow> real" where
  "fmin x y = (if x \<le> y then x else y)"

definition fmax :: "real \<Rightarrow> real \<Rightarrow> real" where
  "fmax x y = (if x \<ge> y then x else y)"

definition vec_assign :: "nat \<Rightarrow> (nat \<Rightarrow> real) \<Rightarrow> vector \<Rightarrow> vector" where
  "vec_assign n f old = (\<lambda>i. if 1 \<le> i \<and> i \<le> n then f i else old i)"

record MSXRungeKutta =
  Itmax :: int
  Adjust :: int

record rk5_state =
  rk_t :: real
  rk_h :: real
  rk_y :: vector
  rk_htry :: real
  rk_K1 :: vector
  rk_K2 :: vector
  rk_K3 :: vector
  rk_K4 :: vector
  rk_K5 :: vector
  rk_K6 :: vector
  rk_Ynew :: vector
  rk_fac11 :: real
  rk_facold :: real
  rk_naccpt :: int
  rk_nrejct :: int
  rk_reject :: bool

record rk5_args =
  rk_n :: nat
  rk_tnext :: real
  rk_hmax :: real
  rk_adjust :: bool
  rk_atol :: vector
  rk_rtol :: vector
  rk_func :: rhs

definition UROUND :: real where
  "UROUND = 23 / 10 ^ 17"

definition rk5_limit_step :: "rk5_args \<Rightarrow> rk5_state \<Rightarrow> rk5_state" where
  "rk5_limit_step p s =
     (if (rk_t s + 101 / 100 * rk_h s - rk_tnext p) > 0 then s\<lparr>rk_h := rk_tnext p - rk_t s\<rparr> else s)"

definition rk5_stage2 :: "rk5_args \<Rightarrow> rk5_state \<Rightarrow> rk5_state" where
  "rk5_stage2 p s =
     (let h = rk_h s; tnew = rk_t s + 2 / 10 * h;
          s = s\<lparr>rk_Ynew := vec_assign (rk_n p) (\<lambda>i. rk_y s i + h * (2 / 10) * rk_K1 s i) (rk_Ynew s)\<rparr>
      in s\<lparr>rk_K2 := call_func (rk_func p) tnew (rk_Ynew s) (rk_n p) (rk_K2 s)\<rparr>)"

definition rk5_stage3 :: "rk5_args \<Rightarrow> rk5_state \<Rightarrow> rk5_state" where
  "rk5_stage3 p s =
     (let h = rk_h s; tnew = rk_t s + 3 / 10 * h;
          s = s\<lparr>rk_Ynew := vec_assign (rk_n p)
                 (\<lambda>i. rk_y s i + h * (3 / 40 * rk_K1 s i + 9 / 40 * rk_K2 s i)) (rk_Ynew s)\<rparr>
      in s\<lparr>rk_K3 := call_func (rk_func p) tnew (rk_Ynew s) (rk_n p) (rk_K3 s)\<rparr>)"

definition rk5_stage4 :: "rk5_args \<Rightarrow> rk5_state \<Rightarrow> rk5_state" where
  "rk5_stage4 p s =
     (let h = rk_h s; tnew = rk_t s + 8 / 10 * h;
          s = s\<lparr>rk_Ynew := vec_assign (rk_n p)
                 (\<lambda>i. rk_y s i + h * (44 / 45 * rk_K1 s i + (- 56 / 15) * rk_K2 s i
                          + 32 / 9 * rk_K3 s i)) (rk_Ynew s)\<rparr>
      in s\<lparr>rk_K4 := call_func (rk_func p) tnew (rk_Ynew s) (rk_n p) (rk_K4 s)\<rparr>)"

definition rk5_stage5 :: "rk5_args \<Rightarrow> rk5_state \<Rightarrow> rk5_state" where
  "rk5_stage5 p s =
     (let h = rk_h s; tnew = rk_t s + 8 / 9 * h;
          s = s\<lparr>rk_Ynew := vec_assign (rk_n p)
                 (\<lambda>i. rk_y s i + h * (19372 / 6561 * rk_K1 s i + (- 25360 / 2187) * rk_K2 s i
                          + 64448 / 6561 * rk_K3 s i + (- 212 / 729) * rk_K4 s i)) (rk_Ynew s)\<rparr>
      in s\<lparr>rk_K5 := call_func (rk_func p) tnew (rk_Ynew s) (rk_n p) (rk_K5 s)\<rparr>)"

definition rk5_stage6 :: "rk5_args \<Rightarrow> rk5_state \<Rightarrow> rk5_state" where
  "rk5_stage6 p s =
     (let h = rk_h s; tnew = rk_t s + h;
          s = s\<lparr>rk_Ynew := vec_assign (rk_n p)
                 (\<lambda>i. rk_y s i + h * (9017 / 3168 * rk_K1 s i + (- 355 / 33) * rk_K2 s i
                          + 46732 / 5247 * rk_K3 s i + 49 / 176 * rk_K4 s i
                          + (- 5103 / 18656) * rk_K5 s i)) (rk_Ynew s)\<rparr>
      in s\<lparr>rk_K6 := call_func (rk_func p) tnew (rk_Ynew s) (rk_n p) (rk_K6 s)\<rparr>)"

definition rk5_stage7 :: "rk5_args \<Rightarrow> rk5_state \<Rightarrow> rk5_state" where
  "rk5_stage7 p s =
     (let h = rk_h s; tnew = rk_t s + h;
          s = s\<lparr>rk_Ynew := vec_assign (rk_n p)
                 (\<lambda>i. rk_y s i + h * (35 / 384 * rk_K1 s i + 500 / 1113 * rk_K3 s i
                          + 125 / 192 * rk_K4 s i + (- 2187 / 6784) * rk_K5 s i
                          + 11 / 84 * rk_K6 s i)) (rk_Ynew s)\<rparr>
      in s\<lparr>rk_K2 := call_func (rk_func p) tnew (rk_Ynew s) (rk_n p) (rk_K2 s)\<rparr>)"

definition rk5_stages :: "rk5_args \<Rightarrow> rk5_state \<Rightarrow> rk5_state" where
  "rk5_stages p s =
     rk5_stage7 p (rk5_stage6 p (rk5_stage5 p (rk5_stage4 p (rk5_stage3 p (rk5_stage2 p
       (rk5_limit_step p s))))))"

definition rk5_err :: "rk5_args \<Rightarrow> rk5_state \<Rightarrow> real" where
  "rk5_err p s =
     sqrt (foldl (\<lambda>err i.
                    let sk = rk_atol p i + rk_rtol p i * fmax \<bar>rk_y s i\<bar> \<bar>rk_Ynew s i\<bar>;
                        sk = rk_K4 s i / sk
                    in err + sk * sk) 0 [1..<Suc (rk_n p)] / real (rk_n p))"

definition rk5_error :: "rk5_args \<Rightarrow> rk5_state \<Rightarrow> rk5_state \<times> real \<times> real" where
  "rk5_error p s =
     (if rk_adjust p then
        let h = rk_h s;
            s = s\<lparr>rk_K4 := vec_assign (rk_n p)
                   (\<lambda>i. (71 / 57600 * rk_K1 s i + (- 71 / 16695) * rk_K3 s i
                          + 71 / 1920 * rk_K4 s i + (- 17253 / 339200) * rk_K5 s i
                          + 22 / 525 * rk_K6 s i + (- 1 / 40) * rk_K2 s i) * h) (rk_K4 s)\<rparr>;
            err = rk5_err p s;
            fac11 = err powr (2 / 10 - 4 / 100 * (75 / 100));
            fac = fac11 / (rk_facold s powr (4 / 100));
            fac = fmax (1 / 10) (fmin (1 / (2 / 10)) (fac / (9 / 10)))
        in (s\<lparr>rk_fac11 := fac11\<rparr>, err, h / fac)
      else (s, 0, rk_h s))"

definition rk5_accept :: "rk5_args \<Rightarrow> rk5_state \<Rightarrow> real \<Rightarrow> real \<Rightarrow> rk5_state" where
  "rk5_accept p s err hnew =
     (let h = rk_h s;
          s = s\<lparr>rk_facold := fmax err (1 / 10 ^ 4), rk_naccpt := rk_naccpt s + 1,
                 rk_K1 := vec_assign (rk_n p) (rk_K2 s) (rk_K1 s),
                 rk_y := vec_assign (rk_n p) (rk_Ynew s) (rk_y s),
                 rk_t := rk_t s + h\<rparr>;
          s = (if rk_adjust p \<and> rk_t s \<le> rk_tnext p then s\<lparr>rk_htry := h\<rparr> else s);
          hnew = (if \<bar>hnew\<bar> > rk_hmax p then rk_hmax p else hnew);
          hnew = (if rk_reject s then fmin \<bar>hnew\<bar> \<bar>h\<bar> else hnew)
      in s\<lparr>rk_reject := False, rk_h := hnew\<rparr>)"

definition rk5_rejected :: "rk5_args \<Rightarrow> rk5_state \<Rightarrow> real \<Rightarrow> rk5_state" where
  "rk5_rejected p s hnew =
     (let h = rk_h s;
          hnew = (if rk_adjust p then h / fmin (1 / (2 / 10)) (rk_fac11 s / (9 / 10)) else hnew);
          s = s\<lparr>rk_reject := True\<rparr>;
          s = (if rk_naccpt s \<ge> 1 then s\<lparr>rk_nrejct := rk_nrejct s + 1\<rparr> else s)
      in s\<lparr>rk_h := hnew\<rparr>)"

definition rk5_step :: "rk5_args \<Rightarrow> rk5_state \<Rightarrow> rk5_state" where
  "rk5_step p s =
     (case rk5_error p (rk5_stages p s) of
        (s, err, hnew) \<Rightarrow>
          let s = (if err \<le> 1 then rk5_accept p s err hnew else rk5_rejected p s hnew)
          in if rk_adjust p then s\<lparr>rk_htry := rk_h s\<rparr> else s)"

definition rk5_zero_step :: "rk5_state \<Rightarrow> bool" where
  "rk5_zero_step s \<longleftrightarrow> 10 / 100 * \<bar>rk_h s\<bar> \<le> \<bar>rk_t s\<bar> * UROUND"

function rk5_loop :: "int \<Rightarrow> rk5_args \<Rightarrow> int \<Rightarrow> int \<Rightarrow> rk5_state \<Rightarrow> int \<times> rk5_state" where
  "rk5_loop itmax p nstep nfcn s =
     (if rk_t s < rk_tnext p then
        if rk5_zero_step s then (- 2, s)
        else
          let s = rk5_step p s;
              nfcn = nfcn + 6;
              nstep = nstep + 1
          in if nstep \<ge> itmax then (- 1, s) else rk5_loop itmax p nstep nfcn s
      else (nfcn, s))"
  by pat_completeness auto
termination
  by (relation "measure (\<lambda>(itmax, p, nstep, nfcn, s). nat (itmax - nstep))") simp_all

definition rk5_initial_step :: "nat \<Rightarrow> real \<Rightarrow> vector \<Rightarrow> vector \<Rightarrow> vector \<Rightarrow> vector \<Rightarrow> real" where
  "rk5_initial_step n h y K1 atol rtol =
     foldl (\<lambda>h i. let ytol = atol i + rtol i * \<bar>y i\<bar>
                   in if K1 i \<noteq> 0 then fmin h (ytol / \<bar>K1 i\<bar>) else h) h [1..<Suc n]"

definition rk5_start :: "MSXRungeKutta \<Rightarrow> rk5_state \<Rightarrow> vector \<Rightarrow> nat \<Rightarrow> real \<Rightarrow> real \<Rightarrow> real
    \<Rightarrow> vector \<Rightarrow> vector \<Rightarrow> rhs \<Rightarrow> rk5_args \<times> rk5_state" where
  "rk5_start S work y n t tnext htry atol rtol func =
     (let K1 = call_func func t y n (rk_K1 work);
          h = htry;
          hmax = tnext - t;
          adjust = (if h = 0 then True else Adjust S \<noteq> 0);
          h = (if h = 0 then rk5_initial_step n (tnext - t) y K1 atol rtol else h);
          h = fmax (1 / 10 ^ 8) h
      in (\<lparr>rk_n = n, rk_tnext = tnext, rk_hmax = hmax, rk_adjust = adjust,
           rk_atol = atol, rk_rtol = rtol, rk_func = func\<rparr>,
          work\<lparr>rk_t := t, rk_h := h, rk_y := y, rk_htry := htry, rk_K1 := K1,
                rk_fac11 := 1, rk_facold := 1 / 10 ^ 4,
                rk_naccpt := 0, rk_nrejct := 0, rk_reject := False\<rparr>))"

definition rk5_integrate :: "MSXRungeKutta \<Rightarrow> rk5_state \<Rightarrow> vector \<Rightarrow> nat \<Rightarrow> real \<Rightarrow> real \<Rightarrow> real
    \<Rightarrow> vector \<Rightarrow> vector \<Rightarrow> rhs \<Rightarrow> int \<times> rk5_state" where
  "rk5_integrate S work y n t tnext htry atol rtol func =
     (case rk5_start S work y n t tnext htry atol rtol func of
        (p, s) \<Rightarrow> rk5_loop (Itmax S) p 1 1 s)"

fun rk5_path :: "rk5_args \<Rightarrow> rk5_state \<Rightarrow> nat \<Rightarrow> rk5_state option" where
  "rk5_path p s 0 = Some s"
| "rk5_path p s (Suc j) =
     (if rk_t s < rk_tnext p \<and> \<not> rk5_zero_step s then rk5_path p (rk5_step p s) j else None)"

declare rk5_loop.simps [simp del]

definition rk5_solver :: MSXRungeKutta where
  "rk5_solver = \<lparr>Itmax = 1000, Adjust = 1\<rparr>"

definition rk5_work0 :: rk5_state where
  "rk5_work0 =
     \<lparr>rk_t = 0, rk_h = 0, rk_y = (\<lambda>i. 0), rk_htry = 0, rk_K1 = (\<lambda>i. 0), rk_K2 = (\<lambda>i. 0),
      rk_K3 = (\<lambda>i. 0), rk_K4 = (\<lambda>i. 0), rk_K5 = (\<lambda>i. 0), rk_K6 = (\<lambda>i. 0), rk_Ynew = (\<lambda>i. 0),
      rk_fac11 = 1, rk_facold = 1 / 10 ^ 4, rk_naccpt = 0, rk_nrejct = 0, rk_reject = False\<rparr>"

definition zero_rhs :: rhs where
  "zero_rhs = (\<lambda>t y n i. 0)"

definition short_interval :: "int \<times> rk5_state" where
  "short_interval =
     rk5_integrate rk5_solver rk5_work0 (\<lambda>i. 1) 1 0 (1 / 10 ^ 9) 0 (\<lambda>i. 1 / 100) (\<lambda>i. 1 / 1000) zero_rhs"

definition late_interval :: "int \<times> rk5_state" where
  "late_interval =
     rk5_integrate rk5_solver rk5_work0 (\<lambda>i. 1) 1 (10 ^ 9) (10 ^ 9 + 1) (1 / 10 ^ 7)
       (\<lambda>i. 1 / 100) (\<lambda>i. 1 / 1000) zero_rhs"

definition one_step_solver :: MSXRungeKutta where
  "one_step_solver = \<lparr>Itmax = 1, Adjust = 0\<rparr>"

definition quarter_steps :: "int \<times> rk5_state" where
  "quarter_steps =
     rk5_integrate one_step_solver rk5_work0 (\<lambda>i. 1) 1 0 1 (1 / 4)
       (\<lambda>i. 1 / 100) (\<lambda>i. 1 / 1000) zero_rhs"

section \<open>Properties\<close>

subsection \<open>Node quality of wall species\<close>

text \<open>
  Claim C10. For every node index j and every species index m whose species kind is WALL,
  the node-quality query returns exactly 0, whatever the node's stored concentrations and
  whatever the state of a tank at the node.
\<close>

theorem getNodeQual_wall_zero:
  "species_type (Species MSX m) = WALL \<Longrightarrow> MSXqual_getNodeQual MSX j m = 0"
  by (simp add: MSXqual_getNodeQual_def)

theorem getNodeQual_wall_zero_witness:
  "species_type (Species wall_project 2) = WALL \<and> node_c (Node wall_project 1) 2 = 7 \<and>
   MSXqual_getNodeQual wall_project 1 2 = 0 \<and> MSXqual_getNodeQual wall_project 1 1 = 3"
proof -
  have h: "species_type (Species wall_project 2) = WALL" by (simp add: wall_project_def)
  show ?thesis
    using h getNodeQual_wall_zero [OF h, of 1]
    by (simp add: wall_project_def MSXqual_getNodeQual_def)
qed

subsection \<open>Stack accesses of the expression evaluator\<close>

text \<open>
  Claim C4. The claim is that every access to the value stack stays within bounds for any
  postfix sequence, also for the binary operators +, -, *, /, and that an evaluation that
  underflows returns 0. The code guards only the operator ^ (opcode 31): for an expression
  that consists of the single operator + the evaluator reads \<open>exprStack[0]\<close>, decrements
  the index to -1 and then reads and writes \<open>exprStack[-1]\<close>, an access below the array.
  The same input with ^ in place of + returns 0, and a well-formed sequence evaluates
  as expected.
\<close>

theorem mathexpr_eval_plus_underflow:
  "mathexpr_eval [op_node 3] g = None \<and> mathexpr_eval [op_node 31] g = Some 0 \<and>
   mathexpr_eval [num_node 3, num_node 4, op_node 3] g = Some 7"
  by (simp add: mathexpr_eval_def op_node_def num_node_def eval_node_def eval_binary_def
      eval_power_def eval_push_def stack_get_def stack_set_def MAX_STACK_SIZE_def)

subsection \<open>Cyclic term check\<close>

text \<open>
  Claim C1. The claim is that any cycle of term references, also a term that references
  itself and a cycle that only the last-numbered term starts, makes \<open>checkCyclicTerms\<close>
  return 1. The outer loop of the code runs over \<open>i = 1 .. n - 1\<close> only, so the search is
  never started from term \<open>n\<close>: with one term that references itself, and with two terms of
  which the second references itself, the check returns 0. A self-reference of the first
  of two terms is found.
\<close>

theorem checkCyclicTerms_skips_last_term:
  "checkCyclicTerms (setRef createMatrix 1 1) 1 = Some 0 \<and>
   checkCyclicTerms (setRef createMatrix 2 2) 2 = Some 0 \<and>
   checkCyclicTerms (setRef createMatrix 1 1) 2 = Some 1"
  by (simp add: checkCyclicTerms_def setRef_def createMatrix_def clearTermRow0_def upt_rec
      eval_nat_numeral)

subsection \<open>Mass-balance ratio\<close>

lemma foldl_add_sum:
  "foldl (\<lambda>s k. s + f k) a [Suc 0..<Suc n] = a + (\<Sum>k = Suc 0..n. (f k :: real))"
proof (induction n)
  case 0
  show ?case by simp
next
  case (Suc n)
  have "[Suc 0..<Suc (Suc n)] = [Suc 0..<Suc n] @ [Suc n]" by simp
  then show ?case using Suc by (simp del: upt_Suc)
qed

lemma sum_reacted_eq:
  "sum_reacted MSX m =
     (\<Sum>k = 1..Nobj_LINK MSX. Link_reacted MSX k m) + (\<Sum>k = 1..Nobj_TANK MSX. Tank_reacted MSX k m)"
  by (simp add: sum_reacted_def Let_def foldl_add_sum del: upt_Suc)

lemma species_balance_inputs: "balance_inputs_eq (species_balance MSX mb m) mb"
  by (simp add: species_balance_def balance_inputs_eq_def Let_def)

lemma species_balance_other:
  "m' \<noteq> m \<Longrightarrow> mb_ratio (species_balance MSX mb m) m' = mb_ratio mb m'
     \<and> mb_reacted (species_balance MSX mb m) m' = mb_reacted mb m'"
  by (simp add: species_balance_def Let_def)

lemma species_balance_at:
  "balance_inputs_eq mb mb0 \<Longrightarrow>
   mb_ratio (species_balance MSX mb m) m = mb_ratio (species_balance MSX mb0 m) m \<and>
   mb_reacted (species_balance MSX mb m) m = mb_reacted (species_balance MSX mb0 m) m"
  by (simp add: species_balance_def balance_inputs_eq_def Let_def)

lemma foldl_species_balance_inputs:
  "balance_inputs_eq (foldl (species_balance MSX) mb ms) mb"
proof (induction ms rule: rev_induct)
  case Nil
  show ?case by (simp add: balance_inputs_eq_def)
next
  case (snoc m ms)
  then show ?case
    using species_balance_inputs [where MSX = MSX and mb = "foldl (species_balance MSX) mb ms" and m = m]
    by (simp add: balance_inputs_eq_def)
qed

lemma foldl_species_balance_at:
  "m \<in> set ms \<Longrightarrow>
   mb_ratio (foldl (species_balance MSX) mb ms) m = mb_ratio (species_balance MSX mb m) m \<and>
   mb_reacted (foldl (species_balance MSX) mb ms) m = mb_reacted (species_balance MSX mb m) m"
proof (induction ms rule: rev_induct)
  case Nil
  then show ?case by simp
next
  case (snoc x ms)
  show ?case
  proof (cases "x = m")
    case True
    then show ?thesis
      using species_balance_at [OF foldl_species_balance_inputs, where MSX = MSX and m = m] by simp
  next
    case False
    with snoc have "m \<in> set ms" by simp
    with snoc.IH False show ?thesis
      using species_balance_other [where m' = m and m = x and MSX = MSX] by simp
  qed
qed

text \<open>
  Claim C8 as stated (the ratio is always the quotient) fails when the denominator is zero:
  with an outflow of 5 and no initial, inflow, in-dispersed or reacted mass, the numerator
  is 5, the denominator is 0 and the reported ratio is 1, which is no quotient of the two.
\<close>

theorem mass_balance_ratio_zero_denominator:
  "mb_ratio (MassBal (MSXqual_step_finalize zero_denominator_state 0 (\<lambda>_. 0))) 1 = 1 \<and>
   mb_outflow zero_denominator_balance 1 + 0 + 0 = 5 \<and>
   mb_initial zero_denominator_balance 1 + mb_inflow zero_denominator_balance 1 + mb_indisperse zero_denominator_balance 1 + 0 = 0 \<and>
   mb_ratio (MassBal (MSXqual_step_finalize zero_denominator_state 0 (\<lambda>_. 0))) 1 *
     (mb_initial zero_denominator_balance 1 + mb_inflow zero_denominator_balance 1 + mb_indisperse zero_denominator_balance 1 + 0) \<noteq> mb_outflow zero_denominator_balance 1 + 0 + 0"
  by (simp add: MSXqual_step_finalize_def zero_denominator_state_def zero_denominator_balance_def species_balance_def sum_reacted_def
      Let_def)

text \<open>
  Claim C8, amended. On finalization (no time left and saving enabled), for every species
  m the total reacted mass S over all links and tanks is stored, and the reported ratio is
  (outflow + final stored + reacted loss) / (initial + inflow + in-dispersed + reacted gain)
  when that denominator is not zero, where S counts as a loss when negative and as a gain
  otherwise; when the denominator is exactly zero the reported ratio is 1.
\<close>

theorem mass_balance_ratio:
  assumes "tleft \<le> 0" and "Saveflag MSX" and "1 \<le> m" and "m \<le> Nobj_SPECIES MSX"
  shows "let S = (\<Sum>k = 1..Nobj_LINK MSX. Link_reacted MSX k m) + (\<Sum>k = 1..Nobj_TANK MSX. Tank_reacted MSX k m);
             mb = MassBal MSX;
             num = mb_outflow mb m + stored m + (if S < 0 then - S else 0);
             den = mb_initial mb m + mb_inflow mb m + mb_indisperse mb m + (if S < 0 then 0 else S);
             mb' = MassBal (MSXqual_step_finalize MSX tleft stored)
         in mb_reacted mb' m = S \<and> mb_final mb' m = stored m \<and>
            mb_ratio mb' m = (if den = 0 then 1 else num / den)"
proof -
  let ?mb0 = "(MassBal MSX)\<lparr>mb_final := stored\<rparr>"
  let ?mb' = "MassBal (MSXqual_step_finalize MSX tleft stored)"
  have m_in: "m \<in> set [1..<Suc (Nobj_SPECIES MSX)]" using assms(3,4) by auto
  have mb': "?mb' = foldl (species_balance MSX) ?mb0 [1..<Suc (Nobj_SPECIES MSX)]"
    using assms(1,2) by (simp add: MSXqual_step_finalize_def Let_def del: upt_Suc)
  have fin: "mb_final ?mb' = stored"
    using foldl_species_balance_inputs [where MSX = MSX and mb = ?mb0 and ms = "[1..<Suc (Nobj_SPECIES MSX)]"]
    by (simp add: mb' balance_inputs_eq_def del: upt_Suc)
  have at: "mb_ratio ?mb' m = mb_ratio (species_balance MSX ?mb0 m) m"
       "mb_reacted ?mb' m = mb_reacted (species_balance MSX ?mb0 m) m"
    using foldl_species_balance_at [OF m_in, where MSX = MSX and mb = ?mb0] by (simp_all add: mb' del: upt_Suc)
  show ?thesis
    unfolding Let_def at fin
    by (simp add: species_balance_def Let_def sum_reacted_eq)
qed

theorem mass_balance_ratio_witness:
  "mb_ratio (MassBal (MSXqual_step_finalize sample_state 0 (\<lambda>_. 2))) 1 = 5 / 7 \<and>
   mb_reacted (MassBal (MSXqual_step_finalize sample_state 0 (\<lambda>_. 2))) 1 = 3"
proof -
  have h: "(0::real) \<le> 0" "Saveflag sample_state" "1 \<le> (1::nat)" "(1::nat) \<le> Nobj_SPECIES sample_state"
    by (simp_all add: sample_state_def)
  show ?thesis
    using mass_balance_ratio [OF h, of "\<lambda>_. 2"]
    by (simp add: sample_state_def sample_balance_def Let_def eval_nat_numeral)
qed

subsection \<open>Reversal of a segment list\<close>

lemma seg_path_unique:
  "seg_path fld h p xs \<Longrightarrow> seg_path fld h p ys \<Longrightarrow> xs = ys"
proof (induction xs arbitrary: p ys)
  case Nil
  then show ?case by (cases ys) auto
next
  case (Cons x xs)
  then show ?case by (cases ys) auto
qed

lemma seg_path_append:
  "seg_path fld h p (xs @ y # ys) \<Longrightarrow> seg_path fld h (Some y) (y # ys)"
  by (induction xs arbitrary: p) auto

lemma seg_path_head_notin:
  assumes "seg_path fld h (fld (h x)) xs"
  shows "x \<notin> set xs"
proof
  assume "x \<in> set xs"
  then obtain bs cs where xs: "xs = bs @ x # cs" by (auto simp: in_set_conv_decomp)
  with assms have "seg_path fld h (Some x) (x # cs)" using seg_path_append by metis
  then have "seg_path fld h (fld (h x)) cs" by simp
  with assms have "xs = cs" using seg_path_unique by metis
  with xs show False by simp
qed

lemma seg_path_distinct: "seg_path fld h p xs \<Longrightarrow> distinct xs"
  by (induction xs arbitrary: p) (auto dest: seg_path_head_notin)

lemma seg_path_cong:
  "(\<And>x. x \<in> set xs \<Longrightarrow> fld (h' x) = fld (h x)) \<Longrightarrow> seg_path fld h' p xs = seg_path fld h p xs"
  by (induction xs arbitrary: p) auto

lemma seg_path_last:
  "seg_path fld h p (xs @ [y]) \<Longrightarrow> fld (h y) = None"
  by (induction xs arbitrary: p) auto

lemma seg_path_same_list:
  "seg_path f h p xs \<Longrightarrow> seg_path g h' q xs \<Longrightarrow> x \<in> set xs \<Longrightarrow> f (h x) = g (h' x)"
proof (induction xs arbitrary: p q)
  case Nil
  then show ?case by simp
next
  case (Cons a xs)
  show ?case
  proof (cases "x = a")
    case True
    from Cons.prems(1,2) have "seg_path f h (f (h a)) xs" "seg_path g h' (g (h' a)) xs" by auto
    then show ?thesis using True by (cases xs) auto
  next
    case False
    with Cons show ?thesis by auto
  qed
qed

lemma reversesegs_loop_path:
  assumes "seg_path seg_prev h seg xs" and "seg_path seg_prev h pseg ys"
    and "set xs \<inter> set ys = {}"
  shows "\<exists>h'. reversesegs_loop h seg pseg = Some h' \<and>
           seg_path seg_prev h' (if xs = [] then pseg else Some (last xs)) (rev xs @ ys) \<and>
           seg_path seg_next h' seg xs \<and>
           (\<forall>s. s \<notin> set xs \<longrightarrow> h' s = h s) \<and>
           (\<forall>s. same_payload (h' s) (h s))"
  using assms
proof (induction xs arbitrary: h seg pseg ys)
  case Nil
  then show ?case
    by (simp add: reversesegs_loop.simps same_payload_def)
next
  case (Cons x xs)
  let ?cseg = "seg_prev (h x)"
  let ?h1 = "h(x := (h x)\<lparr>seg_prev := pseg, seg_next := ?cseg\<rparr>)"
  from Cons.prems(1) have seg: "seg = Some x" and tl: "seg_path seg_prev h ?cseg xs" by auto
  have x_xs: "x \<notin> set xs" using tl by (rule seg_path_head_notin)
  have x_ys: "x \<notin> set ys" using Cons.prems(3) by auto
  have p1: "seg_path seg_prev ?h1 ?cseg xs"
    using tl x_xs by (subst seg_path_cong [where h = h]) auto
  have p2: "seg_path seg_prev ?h1 (Some x) (x # ys)"
    using Cons.prems(2) x_ys by (simp, subst seg_path_cong [where h = h]) auto
  have dj: "set xs \<inter> set (x # ys) = {}" using Cons.prems(3) x_xs by auto
  from Cons.IH [OF p1 p2 dj] obtain h' where
    run: "reversesegs_loop ?h1 ?cseg (Some x) = Some h'" and
    pp: "seg_path seg_prev h' (if xs = [] then Some x else Some (last xs)) (rev xs @ x # ys)" and
    np: "seg_path seg_next h' ?cseg xs" and
    out: "\<forall>s. s \<notin> set xs \<longrightarrow> h' s = ?h1 s" and
    pay: "\<forall>s. same_payload (h' s) (?h1 s)"
    by blast
  have run': "reversesegs_loop h seg pseg = Some h'"
    using run seg by (subst reversesegs_loop.simps) (simp add: Let_def)
  have hx: "h' x = ?h1 x" using out x_xs by blast
  have np': "seg_path seg_next h' seg (x # xs)" using np hx seg by simp
  have out': "\<forall>s. s \<notin> set (x # xs) \<longrightarrow> h' s = h s" using out by auto
  have pay': "\<forall>s. same_payload (h' s) (h s)"
    using pay by (auto simp: same_payload_def split: if_splits)
  show ?case using run' pp np' out' pay' by (cases xs) auto
qed

lemma same_payload_eq:
  "same_payload a b \<Longrightarrow> seg_prev a = seg_prev b \<Longrightarrow> seg_next a = seg_next b \<Longrightarrow> a = b"
  by (cases a, cases b) (simp add: same_payload_def)

lemma seg_path_start:
  "seg_path fld h p (rev xs) \<Longrightarrow> p = (if xs = [] then None else Some (last xs))"
  by (cases xs rule: rev_cases) auto

lemma reversesegs_exchange:
  assumes wf: "wf_seglist MSX k xs"
  shows "\<exists>MSX'. MSXqual_reversesegs MSX k = Some MSX' \<and> wf_seglist MSX' k (rev xs) \<and>
           FirstSeg MSX' = (FirstSeg MSX)(k := LastSeg MSX k) \<and>
           LastSeg MSX' = (LastSeg MSX)(k := FirstSeg MSX k) \<and>
           (\<forall>s\<in>set xs. seg_prev (segs MSX' s) = seg_next (segs MSX s) \<and>
                         seg_next (segs MSX' s) = seg_prev (segs MSX s)) \<and>
           (\<forall>s. s \<notin> set xs \<longrightarrow> segs MSX' s = segs MSX s) \<and>
           (\<forall>s. same_payload (segs MSX' s) (segs MSX s)) \<and>
           SegStore.more MSX' = SegStore.more MSX"
proof -
  let ?h = "segs MSX"
  from wf have P1: "seg_path seg_prev ?h (FirstSeg MSX k) xs"
    and P2: "seg_path seg_next ?h (LastSeg MSX k) (rev xs)"
    by (simp_all add: wf_seglist_def)
  have L: "LastSeg MSX k = (if xs = [] then None else Some (last xs))"
    using P2 by (rule seg_path_start)
  from reversesegs_loop_path [OF P1, of None "[]"] obtain h' where
    run: "reversesegs_loop ?h (FirstSeg MSX k) None = Some h'" and
    pp: "seg_path seg_prev h' (LastSeg MSX k) (rev xs)" and
    np: "seg_path seg_next h' (FirstSeg MSX k) xs" and
    out: "\<forall>s. s \<notin> set xs \<longrightarrow> h' s = ?h s" and
    pay: "\<forall>s. same_payload (h' s) (?h s)"
    using L by auto
  let ?M = "MSX\<lparr>FirstSeg := (FirstSeg MSX)(k := LastSeg MSX k),
                  LastSeg := (LastSeg MSX)(k := FirstSeg MSX k), segs := h'\<rparr>"
  have res: "MSXqual_reversesegs MSX k = Some ?M"
    using run by (simp add: MSXqual_reversesegs_def Let_def)
  have wf': "wf_seglist ?M k (rev xs)"
    using pp np by (simp add: wf_seglist_def)
  have ex: "\<forall>s\<in>set xs. seg_prev (h' s) = seg_next (?h s) \<and> seg_next (h' s) = seg_prev (?h s)"
  proof
    fix s assume s: "s \<in> set xs"
    then have "s \<in> set (rev xs)" by simp
    from seg_path_same_list [OF pp P2 this] seg_path_same_list [OF np P1 s]
    show "seg_prev (h' s) = seg_next (?h s) \<and> seg_next (h' s) = seg_prev (?h s)" by simp
  qed
  show ?thesis
    using res wf' ex out pay by simp
qed

text \<open>
  Claim C9. For a link whose segment list is a well-formed doubly-linked list with segment
  sequence xs, MSXqual_reversesegs terminates, the list is again well formed with the
  reversed sequence, FirstSeg and LastSeg are swapped, every segment of the list has its
  prev and next pointers exchanged, and a second application restores the whole store.
\<close>

theorem reversesegs_reverse_involution:
  assumes wf: "wf_seglist MSX k xs"
  shows "\<exists>MSX'. MSXqual_reversesegs MSX k = Some MSX' \<and> wf_seglist MSX' k (rev xs) \<and>
           FirstSeg MSX' k = LastSeg MSX k \<and> LastSeg MSX' k = FirstSeg MSX k \<and>
           (\<forall>s\<in>set xs. seg_prev (segs MSX' s) = seg_next (segs MSX s) \<and>
                         seg_next (segs MSX' s) = seg_prev (segs MSX s)) \<and>
           MSXqual_reversesegs MSX' k = Some MSX"
proof -
  from reversesegs_exchange [OF wf] obtain M1 where
    r1: "MSXqual_reversesegs MSX k = Some M1" and wf1: "wf_seglist M1 k (rev xs)" and
    f1: "FirstSeg M1 = (FirstSeg MSX)(k := LastSeg MSX k)" and
    l1: "LastSeg M1 = (LastSeg MSX)(k := FirstSeg MSX k)" and
    ex1: "\<forall>s\<in>set xs. seg_prev (segs M1 s) = seg_next (segs MSX s) \<and>
                       seg_next (segs M1 s) = seg_prev (segs MSX s)" and
    out1: "\<forall>s. s \<notin> set xs \<longrightarrow> segs M1 s = segs MSX s" and
    pay1: "\<forall>s. same_payload (segs M1 s) (segs MSX s)" and
    more1: "SegStore.more M1 = SegStore.more MSX"
    by blast
  from reversesegs_exchange [OF wf1] obtain M2 where
    r2: "MSXqual_reversesegs M1 k = Some M2" and
    f2: "FirstSeg M2 = (FirstSeg M1)(k := LastSeg M1 k)" and
    l2: "LastSeg M2 = (LastSeg M1)(k := FirstSeg M1 k)" and
    ex2: "\<forall>s\<in>set (rev xs). seg_prev (segs M2 s) = seg_next (segs M1 s) \<and>
                       seg_next (segs M2 s) = seg_prev (segs M1 s)" and
    out2: "\<forall>s. s \<notin> set (rev xs) \<longrightarrow> segs M2 s = segs M1 s" and
    pay2: "\<forall>s. same_payload (segs M2 s) (segs M1 s)" and
    more2: "SegStore.more M2 = SegStore.more M1"
    by blast
  have "segs M2 s = segs MSX s" for s
  proof (cases "s \<in> set xs")
    case True
    have "same_payload (segs M2 s) (segs MSX s)"
      using pay1 pay2 by (simp add: same_payload_def)
    moreover have "seg_prev (segs M2 s) = seg_prev (segs MSX s)"
      "seg_next (segs M2 s) = seg_next (segs MSX s)"
      using True ex1 ex2 by simp_all
    ultimately show ?thesis by (rule same_payload_eq)
  next
    case False
    then show ?thesis using out1 out2 by simp
  qed
  then have h: "segs M2 = segs MSX" by (rule ext)
  have f: "FirstSeg M2 = FirstSeg MSX" using f1 l1 f2 by (simp add: fun_eq_iff)
  have l: "LastSeg M2 = LastSeg MSX" using f1 l1 l2 by (simp add: fun_eq_iff)
  have "M2 = MSX" using h f l more1 more2 by (simp add: SegStore.equality)
  with r1 wf1 f1 l1 ex1 r2 show ?thesis by simp
qed

theorem reversesegs_reverse_involution_witness:
  "wf_seglist three_segs 1 [1, 2, 3] \<and>
   (\<exists>MSX'. MSXqual_reversesegs three_segs 1 = Some MSX' \<and> wf_seglist MSX' 1 [3, 2, 1] \<and>
      FirstSeg MSX' 1 = Some 3 \<and> LastSeg MSX' 1 = Some 1 \<and>
      seg_prev (segs MSX' 2) = Some 1 \<and> seg_next (segs MSX' 2) = Some 3 \<and>
      MSXqual_reversesegs MSX' 1 = Some three_segs)"
proof -
  have h: "wf_seglist three_segs 1 [1, 2, 3]"
    by (simp add: wf_seglist_def three_segs_def)
  show ?thesis
    using h reversesegs_reverse_involution [OF h]
    by (auto simp: three_segs_def)
qed

subsection \<open>Topological sort\<close>
















subsection \<open>Pivots of the LU factorization\<close>

lemma scale_rows_no_div0: "scale_rows a n is w \<noteq> Inl DivisionByZero"
  by (induction "is" arbitrary: w) (auto simp: Let_def checked_div_def)

lemma divide_by_pivot_no_div0: "divide_by_pivot a j n \<noteq> Inl DivisionByZero"
  by (auto simp: divide_by_pivot_def Let_def checked_div_def mat_set_def TINY1_def)

lemma divide_by_pivot_Inr: "\<exists>a'. divide_by_pivot a j n = Inr a'"
  by (auto simp: divide_by_pivot_def Let_def checked_div_def mat_set_def TINY1_def)

lemma factorize_column_Inr: "\<exists>r. factorize_column a w indx j n = Inr r"
  using divide_by_pivot_Inr [of "fst (select_pivot a w j n)" j n]
  by (auto simp: factorize_column_def split: prod.splits)

lemma factorize_columns_Inr: "\<exists>r. factorize_columns a w indx js n = Inr r"
proof (induction js arbitrary: a w indx)
  case Nil
  show ?case by simp
next
  case (Cons j js)
  obtain a' w' indx' where "factorize_column a w indx j n = Inr (a', w', indx')"
    using factorize_column_Inr [of a w indx j n] by (metis prod_cases3)
  then show ?case using Cons [of a' w' indx'] by simp
qed

lemma factorize_no_div0: "factorize a n w indx \<noteq> Inl DivisionByZero"
  using scale_rows_no_div0 [of a n "[1..<Suc n]" w] factorize_columns_Inr
  by (auto simp: factorize_def split: sum.splits simp del: upt_Suc) (metis Inl_Inr_False)

lemma foldl_mat_set_other_row:
  "r \<notin> set is \<Longrightarrow> foldl (\<lambda>a i. mat_set a i j (g a i)) a is r = a r"
  by (induction "is" arbitrary: a) (auto simp: mat_set_def)

lemma divide_by_pivot_diag:
  assumes "divide_by_pivot a j n = Inr a'"
  shows "a' j j = (if a j j = 0 then TINY1 else a j j)"
proof -
  define b where "b = (if a j j = 0 then mat_set a j j TINY1 else a)"
  have bjj: "b j j = (if a j j = 0 then TINY1 else a j j)" by (simp add: b_def mat_set_def)
  have j: "j \<notin> set [Suc j..<Suc n]" by simp
  have "a' j = b j"
    using assms foldl_mat_set_other_row [OF j]
    unfolding divide_by_pivot_def b_def [symmetric] Let_def checked_div_def
    by (auto split: if_splits simp del: upt_Suc)
  then show ?thesis by (simp add: bjj)
qed

text \<open>
  Claim C3 as stated fails: a selected pivot of magnitude below 10^-20 that is not exactly
  zero is kept. For the matrix with rows (10^-30, 0) and (10^-30 / 2, 1) the first pivot
  stays 10^-30 and the entry below it is divided by it.
\<close>

theorem factorize_tiny_pivot_kept:
  "case factorize tiny_pivot_matrix 2 (\<lambda>_. 0) (\<lambda>_. 0) of
     Inl e \<Rightarrow> False
   | Inr (a, w, indx) \<Rightarrow> indx 1 = 1 \<and> a 1 1 = 1 / 10 ^ 30 \<and> \<bar>a 1 1\<bar> < 1 / 10 ^ 20 \<and> a 1 1 \<noteq> TINY1 \<and> a 2 1 = 1 / 2"
  by code_simp

lemma row_big_fold_zero:
  fixes a :: matrix
  shows "0 \<le> b \<Longrightarrow>
   foldl (\<lambda>big j. if \<bar>a i j\<bar> > big then \<bar>a i j\<bar> else big) b js = 0 \<longleftrightarrow>
     b = 0 \<and> (\<forall>k\<in>set js. a i k = 0)"
proof (induction js arbitrary: b)
  case Nil
  show ?case by simp
next
  case (Cons j js)
  show ?case
  proof (cases "\<bar>a i j\<bar> > b")
    case True
    have "0 \<le> \<bar>a i j\<bar>" by simp
    from Cons.IH [OF this] True Cons.prems show ?thesis by auto
  next
    case False
    from Cons.IH [OF Cons.prems] False Cons.prems show ?thesis by auto
  qed
qed

lemma row_big_zero: "row_big a n i = 0 \<longleftrightarrow> (\<forall>k\<in>{1..n}. a i k = 0)"
proof -
  have s: "set [1..<Suc n] = {1..n}" by auto
  show ?thesis
    unfolding row_big_def using row_big_fold_zero [of 0 a i "[1..<Suc n]"]
    by (simp only: s) simp
qed

lemma scale_rows_singular:
  "scale_rows a n is w = Inl SingularMatrix \<longleftrightarrow> (\<exists>i\<in>set is. row_big a n i = 0)"
  by (induction "is" arbitrary: w) (auto simp: Let_def checked_div_def)

lemma scale_rows_Inr:
  "\<forall>i\<in>set is. row_big a n i \<noteq> 0 \<Longrightarrow> \<exists>w'. scale_rows a n is w = Inr w'"
  by (induction "is" arbitrary: w) (auto simp: Let_def checked_div_def)

lemma factorize_columns_append:
  "factorize_columns a w indx (js @ ks) n =
     (case factorize_columns a w indx js n of
        Inl e \<Rightarrow> Inl e
      | Inr (a, w, indx) \<Rightarrow> factorize_columns a w indx ks n)"
  by (induction js arbitrary: a w indx) (auto split: sum.splits)

lemma foldl_mat_set_other_col:
  "c \<noteq> j \<Longrightarrow> foldl (\<lambda>a i. mat_set a i j (g a i)) a is r c = a r c"
  by (induction "is" arbitrary: a) (auto simp: mat_set_def)

lemma above_diagonal_other_col: "c \<noteq> j \<Longrightarrow> above_diagonal a j r c = a r c"
  unfolding above_diagonal_def by (rule foldl_mat_set_other_col)

lemma pivot_search_fold:
  assumes "foldl (\<lambda>(a, big, imax) i.
              let sum = inner_sum a i j j;
                  a = mat_set a i j sum;
                  dum = w i * \<bar>sum\<bar>
              in if dum \<ge> big then (a, dum, i) else (a, big, imax))
           (a, big, imax) is = (a', big', imax')"
    and "\<forall>i\<in>set is. j \<le> i" and "j \<le> imax"
  shows "j \<le> imax' \<and> (c \<noteq> j \<longrightarrow> a' r c = a r c)"
  using assms
proof (induction "is" arbitrary: a big imax)
  case Nil
  then show ?case by simp
next
  case (Cons i "is")
  define b where "b = mat_set a i j (inner_sum a i j j)"
  define d where "d = w i * \<bar>inner_sum a i j j\<bar>"
  have b: "c \<noteq> j \<longrightarrow> b r c = a r c" by (simp add: b_def mat_set_def)
  have i: "j \<le> i" and r: "\<forall>i\<in>set is. j \<le> i" using Cons.prems(2) by simp_all
  show ?case
  proof (cases "d \<ge> big")
    case True
    have "foldl (\<lambda>(a, big, imax) i.
              let sum = inner_sum a i j j;
                  a = mat_set a i j sum;
                  dum = w i * \<bar>sum\<bar>
              in if dum \<ge> big then (a, dum, i) else (a, big, imax))
           (b, d, i) is = (a', big', imax')"
      using Cons.prems(1) True by (simp add: Let_def b_def d_def)
    from Cons.IH [OF this r i] b show ?thesis by simp
  next
    case False
    have "foldl (\<lambda>(a, big, imax) i.
              let sum = inner_sum a i j j;
                  a = mat_set a i j sum;
                  dum = w i * \<bar>sum\<bar>
              in if dum \<ge> big then (a, dum, i) else (a, big, imax))
           (b, big, imax) is = (a', big', imax')"
      using Cons.prems(1) False by (simp add: Let_def b_def d_def)
    from Cons.IH [OF this r Cons.prems(3)] b show ?thesis by simp
  qed
qed

lemma pivot_search_frame:
  assumes "pivot_search a w j n = (a', big, imax)"
  shows "j \<le> imax \<and> (c \<noteq> j \<longrightarrow> a' r c = a r c)"
proof -
  have s: "\<forall>i\<in>set [j..<Suc n]. j \<le> i" by auto
  show ?thesis
    using pivot_search_fold [OF assms [unfolded pivot_search_def] s order_refl] .
qed

lemma swap_rows_other_row:
  "r \<noteq> imax \<Longrightarrow> r \<noteq> j \<Longrightarrow> swap_rows a imax j n r = a r"
proof -
  have "r \<noteq> imax \<Longrightarrow> r \<noteq> j \<Longrightarrow>
        foldl (\<lambda>a k. let dum = a imax k; a = mat_set a imax k (a j k) in mat_set a j k dum) a ks r
          = a r" for ks
    by (induction ks arbitrary: a) (auto simp: mat_set_def Let_def)
  then show "r \<noteq> imax \<Longrightarrow> r \<noteq> j \<Longrightarrow> swap_rows a imax j n r = a r"
    unfolding swap_rows_def by blast
qed

lemma select_pivot_frame:
  assumes "select_pivot a w j n = (a', w', imax)" and "r < j" and "c \<noteq> j"
  shows "a' r c = a r c"
proof -
  obtain b big im where ps: "pivot_search (above_diagonal a j) w j n = (b, big, im)"
    by (cases "pivot_search (above_diagonal a j) w j n")
  from pivot_search_frame [OF ps, of c r] assms(3)
  have im: "j \<le> im" and b: "b r c = a r c" by (simp_all add: above_diagonal_other_col)
  have "a' r = b r"
  proof (cases "j = im")
    case True
    with assms(1) ps show ?thesis by (simp add: select_pivot_def Let_def)
  next
    case False
    with assms(1) ps have "a' = swap_rows b im j n" by (auto simp: select_pivot_def Let_def)
    moreover have "r \<noteq> im" "r \<noteq> j" using im assms(2) by simp_all
    ultimately show ?thesis by (simp add: swap_rows_other_row)
  qed
  with b show ?thesis by simp
qed

lemma divide_by_pivot_other_col:
  assumes "divide_by_pivot a j n = Inr a'" and "c \<noteq> j"
  shows "a' r c = a r c"
proof -
  define b where "b = (if a j j = 0 then mat_set a j j TINY1 else a)"
  have b: "b r c = a r c" using assms(2) by (simp add: b_def mat_set_def)
  have "a' r c = b r c"
    using assms foldl_mat_set_other_col [OF assms(2)]
    unfolding divide_by_pivot_def b_def [symmetric] Let_def checked_div_def
    by (auto split: if_splits simp del: upt_Suc)
  with b show ?thesis by simp
qed

lemma factorize_column_frame:
  assumes "factorize_column a w indx j n = Inr (a', w', indx')" and "r < j" and "c \<noteq> j"
  shows "a' r c = a r c"
proof -
  obtain b v imax where sp: "select_pivot a w j n = (b, v, imax)"
    by (cases "select_pivot a w j n")
  from assms(1) sp have d: "divide_by_pivot b j n = Inr a'"
    by (auto simp: factorize_column_def split: sum.splits)
  from divide_by_pivot_other_col [OF d assms(3)] select_pivot_frame [OF sp assms(2,3)]
  show ?thesis by simp
qed

lemma factorize_columns_frame:
  "factorize_columns a w indx js n = Inr (a', w', indx') \<Longrightarrow> \<forall>j\<in>set js. r < j \<and> c \<noteq> j \<Longrightarrow>
   a' r c = a r c"
proof (induction js arbitrary: a w indx)
  case Nil
  then show ?case by simp
next
  case (Cons j js)
  obtain b v ix where fc: "factorize_column a w indx j n = Inr (b, v, ix)"
    using factorize_column_Inr [of a w indx j n] by (metis prod_cases3)
  from Cons.prems(1) fc have "factorize_columns b v ix js n = Inr (a', w', indx')" by simp
  from Cons.IH [OF this] Cons.prems(2) have "a' r c = b r c" by simp
  moreover have "b r c = a r c" using factorize_column_frame [OF fc] Cons.prems(2) by simp
  ultimately show ?case by simp
qed

lemma factorize_column_diag:
  assumes "factorize_column a w indx j n = Inr (a', w', indx')"
  shows "a' j j = (if fst (select_pivot a w j n) j j = 0 then TINY1
                   else fst (select_pivot a w j n) j j)"
proof -
  obtain b v imax where sp: "select_pivot a w j n = (b, v, imax)"
    by (cases "select_pivot a w j n")
  from assms sp have d: "divide_by_pivot b j n = Inr a'"
    by (auto simp: factorize_column_def split: sum.splits)
  from divide_by_pivot_diag [OF d] sp show ?thesis by simp
qed

lemma factorize_columns_pivots:
  assumes f: "factorize_columns a w indx [1..<Suc n] n = Inr (a', w', indx')"
    and j: "1 \<le> j" "j \<le> n"
  shows "\<exists>b v ix. factorize_columns a w indx [1..<j] n = Inr (b, v, ix) \<and>
           a' j j = (if fst (select_pivot b v j n) j j = 0 then TINY1
                     else fst (select_pivot b v j n) j j)"
proof -
  have "[1..<Suc n] = [1..<j] @ [j..<Suc n]"
    using upt_add_eq_append [of 1 j "Suc n - j"] j by simp
  moreover have "[j..<Suc n] = j # [Suc j..<Suc n]"
    using j by (simp add: upt_conv_Cons)
  ultimately have sp: "[1..<Suc n] = [1..<j] @ j # [Suc j..<Suc n]" by simp
  obtain b v ix where pre: "factorize_columns a w indx [1..<j] n = Inr (b, v, ix)"
    using factorize_columns_Inr [of a w indx "[1..<j]" n] by (metis prod_cases3)
  obtain b1 v1 ix1 where col: "factorize_column b v ix j n = Inr (b1, v1, ix1)"
    using factorize_column_Inr [of b v ix j n] by (metis prod_cases3)
  have rest: "factorize_columns b1 v1 ix1 [Suc j..<Suc n] n = Inr (a', w', indx')"
    using f unfolding sp factorize_columns_append pre by (simp add: col del: upt_Suc)
  have "a' j j = b1 j j"
    by (rule factorize_columns_frame [OF rest]) auto
  with factorize_column_diag [OF col] pre show ?thesis by simp
qed

lemma TINY1_nonzero: "TINY1 \<noteq> 0"
  by (simp add: TINY1_def)

text \<open>
  Claim C3, amended. No division of factorize has a zero divisor, for any input matrix.
  factorize returns 0 (\<open>Inl SingularMatrix\<close>) exactly when some row 1..n of the matrix is
  all zero, and then before any pivot is selected. Otherwise it returns 1 with the
  factorized matrix, and in every column j the selected pivot \<open>a[j][j]\<close> is replaced by
  10^-20 exactly when it is zero (a non-zero pivot, however small, is kept), so that the
  pivot left on the diagonal, which is the divisor of column j, is never zero.
\<close>

theorem factorize_zero_pivot_replaced:
  "factorize a n w indx \<noteq> Inl DivisionByZero \<and>
   (factorize a n w indx = Inl SingularMatrix \<longleftrightarrow> (\<exists>i\<in>{1..n}. \<forall>k\<in>{1..n}. a i k = 0)) \<and>
   ((\<exists>i\<in>{1..n}. \<forall>k\<in>{1..n}. a i k = 0) \<longrightarrow> (\<forall>j. selected_pivot a n w indx j = None)) \<and>
   ((\<forall>i\<in>{1..n}. \<exists>k\<in>{1..n}. a i k \<noteq> 0) \<longrightarrow>
      (\<exists>a' w' indx'. factorize a n w indx = Inr (a', w', indx') \<and>
         (\<forall>j\<in>{1..n}. \<exists>p. selected_pivot a n w indx j = Some p \<and>
            a' j j = (if p = 0 then TINY1 else p) \<and> a' j j \<noteq> 0)))"
proof -
  have s: "set [1..<Suc n] = {1..n}" by auto
  have sing: "scale_rows a n [1..<Suc n] w = Inl SingularMatrix \<longleftrightarrow>
      (\<exists>i\<in>{1..n}. \<forall>k\<in>{1..n}. a i k = 0)"
    unfolding scale_rows_singular s by (simp only: row_big_zero)
  have c1: "factorize a n w indx \<noteq> Inl DivisionByZero" by (rule factorize_no_div0)
  have c2: "factorize a n w indx = Inl SingularMatrix \<longleftrightarrow>
      (\<exists>i\<in>{1..n}. \<forall>k\<in>{1..n}. a i k = 0)"
  proof (cases "scale_rows a n [1..<Suc n] w")
    case (Inl e)
    with scale_rows_no_div0 [of a n "[1..<Suc n]" w] have "e = SingularMatrix"
      by (cases e) auto
    with Inl sing show ?thesis by (simp add: factorize_def)
  next
    case (Inr v)
    obtain r where "factorize_columns a v indx [1..<Suc n] n = Inr r"
      using factorize_columns_Inr by blast
    with Inr sing show ?thesis by (simp add: factorize_def)
  qed
  have c3: "(\<exists>i\<in>{1..n}. \<forall>k\<in>{1..n}. a i k = 0) \<longrightarrow> (\<forall>j. selected_pivot a n w indx j = None)"
    using sing by (auto simp: selected_pivot_def factorize_before_def)
  have c4: "(\<forall>i\<in>{1..n}. \<exists>k\<in>{1..n}. a i k \<noteq> 0) \<longrightarrow>
      (\<exists>a' w' indx'. factorize a n w indx = Inr (a', w', indx') \<and>
         (\<forall>j\<in>{1..n}. \<exists>p. selected_pivot a n w indx j = Some p \<and>
            a' j j = (if p = 0 then TINY1 else p) \<and> a' j j \<noteq> 0))"
  proof
    assume nz: "\<forall>i\<in>{1..n}. \<exists>k\<in>{1..n}. a i k \<noteq> 0"
    then have "\<forall>i\<in>set [1..<Suc n]. row_big a n i \<noteq> 0"
      unfolding s row_big_zero by blast
    from scale_rows_Inr [OF this] obtain v where v: "scale_rows a n [1..<Suc n] w = Inr v"
      by blast
    obtain a' w' indx' where f: "factorize_columns a v indx [1..<Suc n] n = Inr (a', w', indx')"
      using factorize_columns_Inr [of a v indx "[1..<Suc n]" n] by (metis prod_cases3)
    have r: "factorize a n w indx = Inr (a', w', indx')" using v f by (simp add: factorize_def)
    have "\<exists>p. selected_pivot a n w indx j = Some p \<and>
            a' j j = (if p = 0 then TINY1 else p) \<and> a' j j \<noteq> 0" if "j \<in> {1..n}" for j
    proof -
      from that have j: "1 \<le> j" "j \<le> n" by simp_all
      from factorize_columns_pivots [OF f j] obtain b u ix where
        pre: "factorize_columns a v indx [1..<j] n = Inr (b, u, ix)" and
        d: "a' j j = (if fst (select_pivot b u j n) j j = 0 then TINY1
                      else fst (select_pivot b u j n) j j)"
        by blast
      have "selected_pivot a n w indx j = Some (fst (select_pivot b u j n) j j)"
        using v pre by (simp add: selected_pivot_def factorize_before_def)
      moreover have "a' j j \<noteq> 0" using d TINY1_nonzero by (simp split: if_splits)
      ultimately show ?thesis using d by simp
    qed
    with r show "\<exists>a' w' indx'. factorize a n w indx = Inr (a', w', indx') \<and>
         (\<forall>j\<in>{1..n}. \<exists>p. selected_pivot a n w indx j = Some p \<and>
            a' j j = (if p = 0 then TINY1 else p) \<and> a' j j \<noteq> 0)"
      by blast
  qed
  from c1 c2 c3 c4 show ?thesis by blast
qed

theorem factorize_zero_pivot_replaced_witness:
  "(\<exists>a' w' indx'. factorize ones_matrix 2 (\<lambda>_. 0) (\<lambda>_. 0) = Inr (a', w', indx') \<and>
      selected_pivot ones_matrix 2 (\<lambda>_. 0) (\<lambda>_. 0) 1 = Some 1 \<and> a' 1 1 = 1 \<and>
      selected_pivot ones_matrix 2 (\<lambda>_. 0) (\<lambda>_. 0) 2 = Some 0 \<and> a' 2 2 = TINY1) \<and>
   factorize (\<lambda>i k. 0) 1 (\<lambda>_. 0) (\<lambda>_. 0) = Inl SingularMatrix"
proof -
  have h: "\<forall>i\<in>{1..2::nat}. \<exists>k\<in>{1..2::nat}. ones_matrix i k \<noteq> 0"
    by (auto simp: ones_matrix_def)
  have p1: "selected_pivot ones_matrix 2 (\<lambda>_. 0) (\<lambda>_. 0) 1 = Some 1" by code_simp
  have p2: "selected_pivot ones_matrix 2 (\<lambda>_. 0) (\<lambda>_. 0) 2 = Some 0" by code_simp
  have z: "\<exists>i\<in>{1..1::nat}. \<forall>k\<in>{1..1::nat}. (\<lambda>i k. 0 :: real) i k = 0" by simp
  from factorize_zero_pivot_replaced [of ones_matrix 2 "\<lambda>_. 0" "\<lambda>_. 0"] h
  obtain a' w' indx' where
    f: "factorize ones_matrix 2 (\<lambda>_. 0) (\<lambda>_. 0) = Inr (a', w', indx')" and
    d: "\<forall>j\<in>{1..2}. \<exists>p. selected_pivot ones_matrix 2 (\<lambda>_. 0) (\<lambda>_. 0) j = Some p \<and>
            a' j j = (if p = 0 then TINY1 else p) \<and> a' j j \<noteq> 0"
    by blast
  from d [rule_format, of 1] p1 have a1: "a' 1 1 = 1" by simp
  from d [rule_format, of 2] p2 have a2: "a' 2 2 = TINY1" by simp
  have s: "factorize (\<lambda>i k. 0) 1 (\<lambda>_. 0) (\<lambda>_. 0) = Inl SingularMatrix"
    using factorize_zero_pivot_replaced [of "\<lambda>i k. 0" 1 "\<lambda>_. 0" "\<lambda>_. 0"] z by blast
  from f p1 p2 a1 a2 s show ?thesis by blast
qed

lemma newton_update_step_eq:
  "newton_update_step Fv r (x, e) i = (x(i := x i + Fv i), max e \<bar>Fv i / max (x i) r\<bar>)"
proof -
  have "(if x i < r then r else x i) = max (x i) r" by (auto simp: max_def)
  then show ?thesis by (auto simp: newton_update_step_def Let_def max_def)
qed

lemma newton_update_fold:
  assumes "distinct is" and "\<forall>i\<in>set is. x' i = x i"
  shows "snd (foldl (newton_update_step Fv r) (x', e) is) \<le> r \<longleftrightarrow>
         e \<le> r \<and> (\<forall>i\<in>set is. \<bar>Fv i / max (x i) r\<bar> \<le> r)"
  using assms
proof (induction "is" arbitrary: x' e)
  case Nil
  show ?case by simp
next
  case (Cons i "is")
  have xi: "x' i = x i" using Cons.prems by simp
  have agree: "\<forall>k\<in>set is. (x'(i := x' i + Fv i)) k = x k" using Cons.prems by auto
  have d: "distinct is" using Cons.prems by simp
  have "snd (foldl (newton_update_step Fv r) (x', e) (i # is)) \<le> r \<longleftrightarrow>
        snd (foldl (newton_update_step Fv r)
               (x'(i := x' i + Fv i), max e \<bar>Fv i / max (x' i) r\<bar>) is) \<le> r"
    by (simp only: foldl_Cons newton_update_step_eq)
  also have "\<dots> \<longleftrightarrow> max e \<bar>Fv i / max (x' i) r\<bar> \<le> r \<and>
        (\<forall>i\<in>set is. \<bar>Fv i / max (x i) r\<bar> \<le> r)"
    by (rule Cons.IH [OF d agree])
  also have "\<dots> \<longleftrightarrow> e \<le> r \<and> (\<forall>k\<in>set (i # is). \<bar>Fv k / max (x k) r\<bar> \<le> r)"
    by (auto simp: xi)
  finally show ?case .
qed

lemma newton_update_converged:
  "0 \<le> r \<Longrightarrow>
   snd (newton_update x Fv n r) \<le> r \<longleftrightarrow> (\<forall>i\<in>{1..n}. \<bar>Fv i / max (x i) r\<bar> \<le> r)"
  using newton_update_fold [of "[1..<Suc n]" x x Fv r 0]
  by (auto simp: newton_update_def simp del: upt_Suc)

lemma relconvg_pos: "0 < relconvg_of numsig"
  by (simp add: relconvg_of_def)

lemma newton_iteration_converged:
  "(\<exists>x' S'. newton_iteration S x n (relconvg_of numsig) func = StepConverged x' S') \<longleftrightarrow>
   (\<exists>S1. newton_delta S x n func = Some S1 \<and>
      (\<forall>i\<in>{1..n}. \<bar>F S1 i / max (x i) (relconvg_of numsig)\<bar> \<le> relconvg_of numsig))"
proof (cases "newton_delta S x n func")
  case None
  then show ?thesis by (simp add: newton_iteration_def)
next
  case (Some S1)
  have r: "0 \<le> relconvg_of numsig" using relconvg_pos [of numsig] by simp
  show ?thesis
    using newton_update_converged [OF r, of x "F S1" n] Some
    by (auto simp: newton_iteration_def split: prod.splits)
qed

lemma newton_outcome_0:
  "newton_outcome n r func 0 S x = Some (newton_iteration S x n r func)"
  by (simp add: newton_outcome_def)

lemma newton_outcome_Suc:
  "newton_outcome n r func (Suc j) S x =
     (case newton_iteration S x n r func of
        StepContinue x' S' \<Rightarrow> newton_outcome n r func j S' x'
      | _ \<Rightarrow> None)"
  by (simp add: newton_outcome_def split: newton_step.splits)

lemma newton_loop_code:
  assumes "1 \<le> k"
  shows "(fst (newton_loop n maxit r func k S x) = - 1 \<longleftrightarrow>
            (\<exists>j. k + int j \<le> maxit \<and> newton_outcome n r func j S x = Some StepSingular)) \<and>
         (\<forall>j. fst (newton_loop n maxit r func k S x) = k + int j \<longleftrightarrow>
            k + int j \<le> maxit \<and>
            (\<exists>x' S'. newton_outcome n r func j S x = Some (StepConverged x' S'))) \<and>
         (fst (newton_loop n maxit r func k S x) = - 2 \<longleftrightarrow>
            (\<forall>j. k + int j \<le> maxit \<longrightarrow>
               (\<exists>x' S'. newton_outcome n r func j S x = Some (StepContinue x' S')))) \<and>
         (fst (newton_loop n maxit r func k S x) = - 1 \<or>
          fst (newton_loop n maxit r func k S x) = - 2 \<or>
          (\<exists>j. fst (newton_loop n maxit r func k S x) = k + int j))"
  using assms
proof (induction "nat (maxit + 1 - k)" arbitrary: k S x)
  case 0
  then have gt: "\<not> k \<le> maxit" by simp
  then have "fst (newton_loop n maxit r func k S x) = - 2"
    by (subst newton_loop.simps) simp
  moreover have "\<And>j. \<not> k + int j \<le> maxit" using gt by simp
  ultimately show ?case using 0(2) by auto
next
  case (Suc m)
  then have le: "k \<le> maxit" by simp
  show ?case
  proof (cases "newton_iteration S x n r func")
    case StepSingular
    have c: "fst (newton_loop n maxit r func k S x) = - 1"
      using le StepSingular by (subst newton_loop.simps) simp
    have o: "newton_outcome n r func j S x = (if j = 0 then Some StepSingular else None)" for j
      using StepSingular by (cases j) (simp_all add: newton_outcome_0 newton_outcome_Suc)
    have "k + int 0 \<le> maxit" using le by simp
    then show ?thesis using c o Suc.prems by (auto simp del: of_nat_0)
  next
    case (StepConverged x' S')
    have c: "fst (newton_loop n maxit r func k S x) = k"
      using le StepConverged by (subst newton_loop.simps) simp
    have o: "newton_outcome n r func j S x = (if j = 0 then Some (StepConverged x' S') else None)" for j
      using StepConverged by (cases j) (simp_all add: newton_outcome_0 newton_outcome_Suc)
    have "k + int 0 \<le> maxit" using le by simp
    moreover have "\<exists>j. k = k + int j" by (intro exI [of _ 0]) simp
    ultimately show ?thesis using c o Suc.prems le by (auto simp del: of_nat_0)
  next
    case (StepContinue x' S')
    have c: "fst (newton_loop n maxit r func k S x) = fst (newton_loop n maxit r func (k + 1) S' x')"
      using le StepContinue by (subst newton_loop.simps) simp
    have o0: "newton_outcome n r func 0 S x = Some (StepContinue x' S')"
      using StepContinue by (simp add: newton_outcome_0)
    have oS: "newton_outcome n r func (Suc j) S x = newton_outcome n r func j S' x'" for j
      using StepContinue by (simp add: newton_outcome_Suc)
    have m: "m = nat (maxit + 1 - (k + 1))" using Suc.hyps(2) by simp
    have k1: "1 \<le> k + 1" using Suc.prems by simp
    note IH = Suc.hyps(1) [OF m k1, of S' x']
    have shift: "(\<exists>j. k + int j \<le> maxit \<and> P j) \<longleftrightarrow> (k \<le> maxit \<and> P 0) \<or> (\<exists>j. k + 1 + int j \<le> maxit \<and> P (Suc j))" for P
    proof
      assume "\<exists>j. k + int j \<le> maxit \<and> P j"
      then obtain j where j: "k + int j \<le> maxit" "P j" by blast
      show "(k \<le> maxit \<and> P 0) \<or> (\<exists>j. k + 1 + int j \<le> maxit \<and> P (Suc j))"
      proof (cases j)
        case 0 with j show ?thesis by simp
      next
        case (Suc j') with j show ?thesis by (intro disjI2 exI [of _ j']) simp
      qed
    next
      assume "(k \<le> maxit \<and> P 0) \<or> (\<exists>j. k + 1 + int j \<le> maxit \<and> P (Suc j))"
      then show "\<exists>j. k + int j \<le> maxit \<and> P j"
      proof
        assume "k \<le> maxit \<and> P 0" then show ?thesis by (intro exI [of _ 0]) simp
      next
        assume "\<exists>j. k + 1 + int j \<le> maxit \<and> P (Suc j)"
        then obtain j where "k + 1 + int j \<le> maxit" "P (Suc j)" by blast
        then show ?thesis by (intro exI [of _ "Suc j"]) simp
      qed
    qed
    have p1: "fst (newton_loop n maxit r func k S x) = - 1 \<longleftrightarrow>
            (\<exists>j. k + int j \<le> maxit \<and> newton_outcome n r func j S x = Some StepSingular)"
      unfolding c shift [of "\<lambda>j. newton_outcome n r func j S x = Some StepSingular"]
      using IH by (simp add: o0 oS)
    have p2: "fst (newton_loop n maxit r func k S x) = k + int j \<longleftrightarrow>
            k + int j \<le> maxit \<and>
            (\<exists>x' S'. newton_outcome n r func j S x = Some (StepConverged x' S'))" for j
    proof (cases j)
      case 0
      have "fst (newton_loop n maxit r func (k + 1) S' x') \<noteq> k"
        using IH Suc.prems by auto
      then show ?thesis using 0 by (simp add: c o0)
    next
      case (Suc j')
      have e: "k + int (Suc j') = k + 1 + int j'" by simp
      from IH have "fst (newton_loop n maxit r func (k + 1) S' x') = k + 1 + int j' \<longleftrightarrow>
            k + 1 + int j' \<le> maxit \<and>
            (\<exists>x'' S''. newton_outcome n r func j' S' x' = Some (StepConverged x'' S''))"
        by blast
      then show ?thesis unfolding Suc c e oS .
    qed
    have p3: "fst (newton_loop n maxit r func k S x) = - 2 \<longleftrightarrow>
            (\<forall>j. k + int j \<le> maxit \<longrightarrow>
               (\<exists>x' S'. newton_outcome n r func j S x = Some (StepContinue x' S')))"
    proof -
      have "(\<forall>j. k + int j \<le> maxit \<longrightarrow> Q j) \<longleftrightarrow> (k \<le> maxit \<longrightarrow> Q 0) \<and> (\<forall>j. k + 1 + int j \<le> maxit \<longrightarrow> Q (Suc j))" for Q
        using shift [of "\<lambda>j. \<not> Q j"] by blast
      then show ?thesis using IH by (simp add: c o0 oS)
    qed
    have p4: "fst (newton_loop n maxit r func k S x) = - 1 \<or>
          fst (newton_loop n maxit r func k S x) = - 2 \<or>
          (\<exists>j. fst (newton_loop n maxit r func k S x) = k + int j)"
    proof -
      from IH have "fst (newton_loop n maxit r func (k + 1) S' x') = - 1 \<or>
          fst (newton_loop n maxit r func (k + 1) S' x') = - 2 \<or>
          (\<exists>j. fst (newton_loop n maxit r func (k + 1) S' x') = k + 1 + int j)" by blast
      then show ?thesis
      proof (elim disjE exE)
        fix j assume "fst (newton_loop n maxit r func (k + 1) S' x') = k + 1 + int j"
        then have "fst (newton_loop n maxit r func k S x) = k + int (Suc j)" by (simp add: c)
        then show ?thesis by blast
      qed (simp_all add: c)
    qed
    show ?thesis using p1 p2 p3 p4 by blast
  qed
qed

lemma newton_delta_None:
  "newton_delta S x n func = None \<longleftrightarrow>
   (case jacobian x n (F S) (W S) (J S) func of
      (x', f, w, a) \<Rightarrow> factorize a n w (Indx S) = Inl SingularMatrix)"
proof -
  obtain x' f w a where j: "jacobian x n (F S) (W S) (J S) func = (x', f, w, a)"
    by (cases "jacobian x n (F S) (W S) (J S) func")
  show ?thesis
  proof (cases "factorize a n w (Indx S)")
    case (Inl e)
    with factorize_no_div0 [of a n w "Indx S"] have "e = SingularMatrix" by (cases e) auto
    with Inl j show ?thesis by (simp add: newton_delta_def)
  next
    case (Inr r)
    with j show ?thesis by (simp add: newton_delta_def Let_def split: prod.splits)
  qed
qed

text \<open>
  Claim C2 as stated fails in its convergence test. With numsig = 0, x = 0 and the
  callback f(0) = 9999999, f(x) = 10^7 otherwise, the Jacobian is (10^7 - 9999999) / 10^-7 =
  10^7, the first update is -1, the scaled error is exactly 1 = 10^(-numsig), and the code
  returns 1 although the strict test of the claim does not hold, whether x is taken before
  or after the update. With x = -10 and f(x) = x + 15 - 10^-7 the first update is -5; the
  claim scales by |x| and would accept iteration 1, the code scales by max(x, 1) = 1 and
  returns 2.
\<close>

theorem newton_solve_spec_test_differs:
  "fst (newton_solve solver1 (\<lambda>_. 0) 1 10 0 jump_at_zero) = 1 \<and>
   F (the (newton_delta solver1 (\<lambda>_. 0) 1 jump_at_zero)) 1 = - 1 \<and>
   \<not> spec_converged (\<lambda>_. 0) (F (the (newton_delta solver1 (\<lambda>_. 0) 1 jump_at_zero))) 1 0 \<and>
   \<not> spec_converged (\<lambda>_. - 1) (F (the (newton_delta solver1 (\<lambda>_. 0) 1 jump_at_zero))) 1 0 \<and>
   fst (newton_solve solver1 (\<lambda>_. - 10) 1 10 0 (shifted_line (- 15 + 1 / 10 ^ 7))) = 2 \<and>
   spec_converged (\<lambda>_. - 10)
     (F (the (newton_delta solver1 (\<lambda>_. - 10) 1 (shifted_line (- 15 + 1 / 10 ^ 7))))) 1 0 \<and>
   spec_converged (\<lambda>_. - 15)
     (F (the (newton_delta solver1 (\<lambda>_. - 10) 1 (shifted_line (- 15 + 1 / 10 ^ 7))))) 1 0"
  by code_simp

text \<open>
  Claim C2, amended. newton_solve returns -3 if n exceeds the opened capacity. Otherwise
  let k be the first iteration among 1..maxit at which either factorize reports a singular
  Jacobian or the update satisfies |dx[i] / max(x[i], 10^(-numsig))| <= 10^(-numsig) for all
  i in 1..n (x[i] without absolute value, comparison not strict): the result is -1 in the
  first case and k in the second; it is -2 if there is no such iteration.
  \<open>newton_outcome j\<close> is the outcome of iteration j + 1 when all iterations before it
  continued.
\<close>

theorem newton_solve_return_code:
  "(Nmax S < n \<longrightarrow> fst (newton_solve S x n maxit numsig func) = - 3) \<and>
   (n \<le> Nmax S \<longrightarrow>
      (fst (newton_solve S x n maxit numsig func) = - 1 \<longleftrightarrow>
         (\<exists>j. 1 + int j \<le> maxit \<and>
            newton_outcome n (relconvg_of numsig) func j S x = Some StepSingular)) \<and>
      (\<forall>j. fst (newton_solve S x n maxit numsig func) = 1 + int j \<longleftrightarrow>
         1 + int j \<le> maxit \<and>
         (\<exists>x' S'. newton_outcome n (relconvg_of numsig) func j S x = Some (StepConverged x' S'))) \<and>
      (fst (newton_solve S x n maxit numsig func) = - 2 \<longleftrightarrow>
         (\<forall>j. 1 + int j \<le> maxit \<longrightarrow>
            (\<exists>x' S'. newton_outcome n (relconvg_of numsig) func j S x =
                Some (StepContinue x' S'))))) \<and>
   (\<forall>T y. (newton_iteration T y n (relconvg_of numsig) func = StepSingular \<longleftrightarrow>
            (case jacobian y n (F T) (W T) (J T) func of
               (y', f, w, a) \<Rightarrow> factorize a n w (Indx T) = Inl SingularMatrix)) \<and>
          ((\<exists>y' T'. newton_iteration T y n (relconvg_of numsig) func = StepConverged y' T') \<longleftrightarrow>
            (\<exists>T1. newton_delta T y n func = Some T1 \<and>
               (\<forall>i\<in>{1..n}. \<bar>F T1 i / max (y i) (relconvg_of numsig)\<bar> \<le> relconvg_of numsig))))"
proof -
  have a: "Nmax S < n \<longrightarrow> fst (newton_solve S x n maxit numsig func) = - 3"
    by (simp add: newton_solve_def)
  have e: "n \<le> Nmax S \<Longrightarrow> fst (newton_solve S x n maxit numsig func) =
      fst (newton_loop n maxit (relconvg_of numsig) func 1 S x)"
    by (simp add: newton_solve_def Let_def)
  have s: "newton_iteration T y n (relconvg_of numsig) func = StepSingular \<longleftrightarrow>
            (case jacobian y n (F T) (W T) (J T) func of
               (y', f, w, a) \<Rightarrow> factorize a n w (Indx T) = Inl SingularMatrix)" for T y
    unfolding newton_delta_None [symmetric]
    by (auto simp: newton_iteration_def split: option.splits prod.splits)
  show ?thesis
    using a e newton_loop_code [of 1 n maxit "relconvg_of numsig" func S x]
      newton_iteration_converged [of _ _ n numsig func] s
    by simp
qed

theorem newton_solve_return_code_witness:
  "1 \<le> Nmax solver1 \<and>
   fst (newton_solve solver1 (\<lambda>_. 1) 1 10 3 (shifted_line 5)) = 2 \<and>
   (\<exists>x' S'. newton_outcome 1 (relconvg_of 3) (shifted_line 5) 1 solver1 (\<lambda>_. 1) =
       Some (StepConverged x' S')) \<and>
   fst (newton_solve solver1 (\<lambda>_. 1) 2 10 3 (shifted_line 5)) = - 3"
proof -
  have h: "1 \<le> Nmax solver1" "Nmax solver1 < 2" by (simp_all add: solver1_def)
  have c: "fst (newton_solve solver1 (\<lambda>_. 1) 1 10 3 (shifted_line 5)) = 1 + int 1" by code_simp
  have t1: "fst (newton_solve solver1 (\<lambda>_. 1) 1 10 3 (shifted_line 5)) = 1 + int 1 \<longleftrightarrow>
      1 + int 1 \<le> 10 \<and>
      (\<exists>x' S'. newton_outcome 1 (relconvg_of 3) (shifted_line 5) 1 solver1 (\<lambda>_. 1) =
          Some (StepConverged x' S'))"
    using newton_solve_return_code [of solver1 1 "\<lambda>_. 1" 10 3 "shifted_line 5"] h(1) by blast
  have t2: "fst (newton_solve solver1 (\<lambda>_. 1) 2 10 3 (shifted_line 5)) = - 3"
    using newton_solve_return_code [of solver1 2 "\<lambda>_. 1" 10 3 "shifted_line 5"] h(2) by blast
  show ?thesis using h(1) c t1 t2 by simp
qed

subsection \<open>Segment budget\<close>


















subsection \<open>Return code of rk5_integrate\<close>

lemma rk5_loop_path:
  "\<exists>j s'. rk5_path p s j = Some s' \<and> (j = 0 \<or> nstep + int j < itmax) \<and>
     (if rk_t s' < rk_tnext p then
        if rk5_zero_step s' then rk5_loop itmax p nstep nfcn s = (- 2, s')
        else itmax \<le> nstep + int j + 1 \<and>
             rk5_loop itmax p nstep nfcn s = (- 1, rk5_step p s')
      else rk5_loop itmax p nstep nfcn s = (nfcn + 6 * int j, s'))"
proof (induction itmax p nstep nfcn s rule: rk5_loop.induct)
  case (1 itmax p nstep nfcn s)
  consider (stop) "\<not> rk_t s < rk_tnext p \<or> rk5_zero_step s"
    | (limit) "rk_t s < rk_tnext p" "\<not> rk5_zero_step s" "itmax \<le> nstep + 1"
    | (step) "rk_t s < rk_tnext p" "\<not> rk5_zero_step s" "\<not> itmax \<le> nstep + 1"
    by blast
  then show ?case
  proof cases
    case stop
    have "rk5_path p s 0 = Some s" by simp
    moreover have "if rk_t s < rk_tnext p then
        if rk5_zero_step s then rk5_loop itmax p nstep nfcn s = (- 2, s)
        else itmax \<le> nstep + int 0 + 1 \<and>
             rk5_loop itmax p nstep nfcn s = (- 1, rk5_step p s)
      else rk5_loop itmax p nstep nfcn s = (nfcn + 6 * int 0, s)"
      using stop by (subst rk5_loop.simps, simp)+
    ultimately show ?thesis by blast
  next
    case limit
    have "rk5_path p s 0 = Some s" by simp
    moreover have "if rk_t s < rk_tnext p then
        if rk5_zero_step s then rk5_loop itmax p nstep nfcn s = (- 2, s)
        else itmax \<le> nstep + int 0 + 1 \<and>
             rk5_loop itmax p nstep nfcn s = (- 1, rk5_step p s)
      else rk5_loop itmax p nstep nfcn s = (nfcn + 6 * int 0, s)"
      using limit by (subst rk5_loop.simps) (simp add: Let_def)
    ultimately show ?thesis by blast
  next
    case step
    from "1.IH" [OF step(1,2) refl refl refl step(3)] obtain j s' where
      r: "rk5_path p (rk5_step p s) j = Some s'" and
      b: "j = 0 \<or> nstep + 1 + int j < itmax" and
      l: "if rk_t s' < rk_tnext p then
        if rk5_zero_step s'
        then rk5_loop itmax p (nstep + 1) (nfcn + 6) (rk5_step p s) = (- 2, s')
        else itmax \<le> nstep + 1 + int j + 1 \<and>
             rk5_loop itmax p (nstep + 1) (nfcn + 6) (rk5_step p s) = (- 1, rk5_step p s')
      else rk5_loop itmax p (nstep + 1) (nfcn + 6) (rk5_step p s) = (nfcn + 6 + 6 * int j, s')"
      by blast
    have e: "rk5_loop itmax p nstep nfcn s =
        rk5_loop itmax p (nstep + 1) (nfcn + 6) (rk5_step p s)"
      using step by (subst rk5_loop.simps) (simp add: Let_def)
    have e1: "nstep + int (Suc j) = nstep + 1 + int j" by simp
    have e2: "nfcn + 6 * int (Suc j) = nfcn + 6 + 6 * int j" by simp
    have "rk5_path p s (Suc j) = Some s'" using step r by simp
    moreover have "Suc j = 0 \<or> nstep + int (Suc j) < itmax" using b step(3) by auto
    moreover have "if rk_t s' < rk_tnext p then
        if rk5_zero_step s' then rk5_loop itmax p nstep nfcn s = (- 2, s')
        else itmax \<le> nstep + int (Suc j) + 1 \<and>
             rk5_loop itmax p nstep nfcn s = (- 1, rk5_step p s')
      else rk5_loop itmax p nstep nfcn s = (nfcn + 6 * int (Suc j), s')"
      unfolding e e1 e2 by (rule l)
    ultimately show ?thesis by blast
  qed
qed

lemma rk5_path_prefix:
  "rk5_path p s j = Some s' \<Longrightarrow> i < j \<Longrightarrow>
   \<exists>s''. rk5_path p s i = Some s'' \<and> rk_t s'' < rk_tnext p \<and> \<not> rk5_zero_step s''"
proof (induction j arbitrary: s i)
  case 0
  then show ?case by simp
next
  case (Suc j)
  from Suc.prems(1) have c: "rk_t s < rk_tnext p" "\<not> rk5_zero_step s"
    and r: "rk5_path p (rk5_step p s) j = Some s'"
    by (simp_all split: if_splits)
  show ?case
  proof (cases i)
    case 0
    with c show ?thesis by simp
  next
    case (Suc k)
    with Suc.prems(2) have "k < j" by simp
    from Suc.IH [OF r this] c Suc show ?thesis by simp
  qed
qed

lemma rk5_path_compare:
  assumes a: "rk5_path p s i = Some s1" and b: "rk5_path p s j = Some s2"
    and stop: "\<not> (rk_t s1 < rk_tnext p \<and> \<not> rk5_zero_step s1)"
  shows "j < i \<or> (j = i \<and> s2 = s1)"
proof -
  have "\<not> i < j" using rk5_path_prefix [OF b, of i] a stop by auto
  then consider "j < i" | "j = i" by linarith
  then show ?thesis using a b by cases auto
qed

lemma upt_one: "[1..<Suc 1] = [1]" "[Suc 0..<Suc (Suc 0)] = [Suc 0]"
  by (simp_all add: upt_rec)

lemma rk5_loop_zero_step:
  "rk_t s < rk_tnext p \<Longrightarrow> rk5_zero_step s \<Longrightarrow> rk5_loop itmax p nstep nfcn s = (- 2, s)"
  by (subst rk5_loop.simps) simp

lemma rk5_loop_end:
  "\<not> rk_t s < rk_tnext p \<Longrightarrow> rk5_loop itmax p nstep nfcn s = (nfcn, s)"
  by (subst rk5_loop.simps) simp

lemma rk5_loop_continue:
  "rk_t s < rk_tnext p \<Longrightarrow> \<not> rk5_zero_step s \<Longrightarrow> nstep + 1 < itmax \<Longrightarrow>
   rk5_loop itmax p nstep nfcn s = rk5_loop itmax p (nstep + 1) (nfcn + 6) (rk5_step p s)"
  by (subst rk5_loop.simps) (simp add: Let_def)

lemma late_interval_result: "fst late_interval = - 2 \<and> rk_h (snd late_interval) = 1 / 10 ^ 7"
  unfolding late_interval_def rk5_integrate_def rk5_start_def
  by (simp add: Let_def rk5_solver_def rk5_work0_def zero_rhs_def call_func_def fmax_def
      rk5_loop_zero_step rk5_zero_step_def UROUND_def)

lemma short_interval_step:
  "rk5_step
     \<lparr>rk_n = 1, rk_tnext = 1 / 10 ^ 9, rk_hmax = 1 / 10 ^ 9, rk_adjust = True,
      rk_atol = (\<lambda>i. 1 / 100), rk_rtol = (\<lambda>i. 1 / 1000), rk_func = zero_rhs\<rparr>
     (rk5_work0\<lparr>rk_h := 1 / 10 ^ 8, rk_y := (\<lambda>i. 1)\<rparr>) =
   rk5_work0\<lparr>rk_t := 1 / 10 ^ 9, rk_h := 1 / 10 ^ 9, rk_y := (\<lambda>i. 1), rk_htry := 1 / 10 ^ 9,
     rk_Ynew := (\<lambda>i. if i = 1 then 1 else 0), rk_fac11 := 0, rk_naccpt := 1\<rparr>"
  by (simp add: rk5_step_def rk5_stages_def rk5_stage7_def rk5_stage6_def rk5_stage5_def
      rk5_stage4_def rk5_stage3_def rk5_stage2_def rk5_limit_step_def rk5_error_def rk5_err_def
      rk5_accept_def rk5_rejected_def Let_def rk5_work0_def zero_rhs_def call_func_def
      vec_assign_def fmax_def fmin_def upt_one fun_eq_iff)

lemma short_interval_start:
  "rk5_start rk5_solver rk5_work0 (\<lambda>i. 1) 1 0 (1 / 10 ^ 9) 0 (\<lambda>i. 1 / 100) (\<lambda>i. 1 / 1000) zero_rhs =
   (\<lparr>rk_n = 1, rk_tnext = 1 / 10 ^ 9, rk_hmax = 1 / 10 ^ 9, rk_adjust = True,
      rk_atol = (\<lambda>i. 1 / 100), rk_rtol = (\<lambda>i. 1 / 1000), rk_func = zero_rhs\<rparr>,
    rk5_work0\<lparr>rk_h := 1 / 10 ^ 8, rk_y := (\<lambda>i. 1)\<rparr>)"
  by (simp add: rk5_start_def Let_def rk5_work0_def zero_rhs_def call_func_def fmax_def fmin_def
      rk5_initial_step_def upt_one)

lemma short_interval_result:
  "short_interval =
     (7, rk5_work0\<lparr>rk_t := 1 / 10 ^ 9, rk_h := 1 / 10 ^ 9, rk_y := (\<lambda>i. 1), rk_htry := 1 / 10 ^ 9,
           rk_Ynew := (\<lambda>i. if i = 1 then 1 else 0), rk_fac11 := 0, rk_naccpt := 1\<rparr>)"
proof -
  let ?p = "\<lparr>rk_n = 1, rk_tnext = 1 / 10 ^ 9, rk_hmax = 1 / 10 ^ 9, rk_adjust = True,
      rk_atol = (\<lambda>i. 1 / 100), rk_rtol = (\<lambda>i. 1 / 1000), rk_func = zero_rhs\<rparr>"
  let ?s0 = "rk5_work0\<lparr>rk_h := 1 / 10 ^ 8, rk_y := (\<lambda>i. 1)\<rparr>"
  let ?s1 = "rk5_work0\<lparr>rk_t := 1 / 10 ^ 9, rk_h := 1 / 10 ^ 9, rk_y := (\<lambda>i. 1), rk_htry := 1 / 10 ^ 9,
           rk_Ynew := (\<lambda>i. if i = 1 then 1 else 0), rk_fac11 := 0, rk_naccpt := 1\<rparr>"
  have "rk5_loop 1000 ?p 1 1 ?s0 = rk5_loop 1000 ?p (1 + 1) (1 + 6) (rk5_step ?p ?s0)"
    by (rule rk5_loop_continue) (simp_all add: rk5_work0_def rk5_zero_step_def UROUND_def)
  also have "\<dots> = rk5_loop 1000 ?p (1 + 1) (1 + 6) ?s1" by (simp only: short_interval_step)
  also have "\<dots> = (1 + 6, ?s1)"
    by (rule rk5_loop_end) (simp add: rk5_work0_def)
  also have "(1 + 6 :: int) = 7" by simp
  finally have run: "rk5_loop 1000 ?p 1 1 ?s0 = (7, ?s1)" .
  show ?thesis
    unfolding short_interval_def rk5_integrate_def short_interval_start
    by (simp only: prod.case rk5_solver_def MSXRungeKutta.select_convs run)
qed

text \<open>
  Claim C5 as stated fails: the return code -2 is not tied to the step size 10^-8. With
  the solver as opened by the chemistry engine and the right-hand side 0, the interval
  from 0 to 10^-9 with \<open>*htry = 0\<close> is integrated in one step of size 10^-9, below
  10^-8, and the call returns 7, the number of function evaluations; the interval from
  10^9 to 10^9 + 1 with \<open>*htry = 10^-7\<close> returns -2 although the step size is 10^-7.
\<close>

theorem rk5_zero_step_test_not_1e8:
  "fst short_interval = 7 \<and> rk_h (snd short_interval) < 1 / 10 ^ 8 \<and>
   fst late_interval = - 2 \<and> rk_h (snd late_interval) \<ge> 1 / 10 ^ 8"
  using late_interval_result by (simp add: short_interval_result rk5_work0_def)

text \<open>
  Claim C5, amended. Let a run be the sequence of states that the loop body produces from
  the start of the integration as long as t < tnext and the zero step test
  0.10 |h| <= |t| UROUND fails, and call its state after j steps within the step limit if
  j = 0 or j + 2 <= Itmax. For every solver, interval, initial step, tolerances and
  right-hand side: if the state after j steps is within the step limit and has t >= tnext,
  rk5_integrate returns 1 + 6 j, the number of function evaluations; if it is within the
  step limit and has t < tnext with the zero step test true, rk5_integrate returns -2; and
  if no state up to step Itmax ends the run, it returns -1. Conversely, -2 is returned
  only if the run ends in a state with t < tnext where the zero step test holds, -1 only if
  no state within the step limit ends the run, and any other value is 1 + 6 j for a run
  that ends with t >= tnext after j steps. The zero step test, not the size 10^-8, decides
  the code -2. Nothing is said of a run that ends at step Itmax - 1 or Itmax.
\<close>

theorem rk5_integrate_return_code:
  "case rk5_start S work y n t tnext htry atol rtol func of
     (p, s0) \<Rightarrow>
       (\<forall>j s'. rk5_path p s0 j = Some s' \<and> (j = 0 \<or> int j + 2 \<le> Itmax S) \<longrightarrow>
          (rk_t s' < tnext \<and> 10 / 100 * \<bar>rk_h s'\<bar> \<le> \<bar>rk_t s'\<bar> * UROUND \<longrightarrow>
             fst (rk5_integrate S work y n t tnext htry atol rtol func) = - 2) \<and>
          (\<not> rk_t s' < tnext \<longrightarrow>
             fst (rk5_integrate S work y n t tnext htry atol rtol func) = 1 + 6 * int j)) \<and>
       ((\<forall>j s'. rk5_path p s0 j = Some s' \<and> (j = 0 \<or> int j \<le> Itmax S) \<longrightarrow>
           rk_t s' < tnext \<and> \<not> 10 / 100 * \<bar>rk_h s'\<bar> \<le> \<bar>rk_t s'\<bar> * UROUND) \<longrightarrow>
          fst (rk5_integrate S work y n t tnext htry atol rtol func) = - 1) \<and>
       (fst (rk5_integrate S work y n t tnext htry atol rtol func) = - 2 \<longrightarrow>
          (\<exists>j s'. rk5_path p s0 j = Some s' \<and> rk_t s' < tnext \<and>
             10 / 100 * \<bar>rk_h s'\<bar> \<le> \<bar>rk_t s'\<bar> * UROUND)) \<and>
       (fst (rk5_integrate S work y n t tnext htry atol rtol func) = - 1 \<longrightarrow>
          (\<forall>j s'. rk5_path p s0 j = Some s' \<and> (j = 0 \<or> int j + 2 \<le> Itmax S) \<longrightarrow>
             rk_t s' < tnext \<and> \<not> 10 / 100 * \<bar>rk_h s'\<bar> \<le> \<bar>rk_t s'\<bar> * UROUND)) \<and>
       (fst (rk5_integrate S work y n t tnext htry atol rtol func) \<noteq> - 2 \<and>
        fst (rk5_integrate S work y n t tnext htry atol rtol func) \<noteq> - 1 \<longrightarrow>
          (\<exists>j s'. rk5_path p s0 j = Some s' \<and> \<not> rk_t s' < tnext \<and>
             fst (rk5_integrate S work y n t tnext htry atol rtol func) = 1 + 6 * int j))"
proof -
  obtain p s0 where st: "rk5_start S work y n t tnext htry atol rtol func = (p, s0)"
    by (cases "rk5_start S work y n t tnext htry atol rtol func")
  have init: "rk_tnext p = tnext"
    using st by (auto simp: rk5_start_def Let_def)
  define code where "code = fst (rk5_integrate S work y n t tnext htry atol rtol func)"
  have code: "code = fst (rk5_loop (Itmax S) p 1 1 s0)"
    by (simp add: code_def rk5_integrate_def st)
  from rk5_loop_path [where p = p and s = s0 and nstep = 1 and itmax = "Itmax S" and nfcn = 1]
  obtain k sk where
    r: "rk5_path p s0 k = Some sk" and
    b: "k = 0 \<or> 1 + int k < Itmax S" and
    l0: "if rk_t sk < rk_tnext p then
        if rk5_zero_step sk then rk5_loop (Itmax S) p 1 1 s0 = (- 2, sk)
        else Itmax S \<le> 1 + int k + 1 \<and>
             rk5_loop (Itmax S) p 1 1 s0 = (- 1, rk5_step p sk)
      else rk5_loop (Itmax S) p 1 1 s0 = (1 + 6 * int k, sk)"
    by blast
  have l: "if rk_t sk < tnext then
        if rk5_zero_step sk then code = - 2
        else Itmax S \<le> 1 + int k + 1 \<and> code = - 1
      else code = 1 + 6 * int k"
    using l0 by (auto simp: code init)
  have c1: "(rk_t s' < tnext \<and> rk5_zero_step s' \<longrightarrow> code = - 2) \<and>
            (\<not> rk_t s' < tnext \<longrightarrow> code = 1 + 6 * int j)"
    if pj: "rk5_path p s0 j = Some s'" and bj: "j = 0 \<or> int j + 2 \<le> Itmax S" for j s'
  proof (cases "rk_t s' < tnext \<and> \<not> rk5_zero_step s'")
    case True
    then show ?thesis by simp
  next
    case False
    then have stop: "\<not> (rk_t s' < rk_tnext p \<and> \<not> rk5_zero_step s')" by (simp add: init)
    from rk5_path_compare [OF pj r stop] consider "k < j" | "k = j" "sk = s'" by blast
    then show ?thesis
    proof cases
      case 1
      from rk5_path_prefix [OF pj 1] r have "rk_t sk < tnext" "\<not> rk5_zero_step sk"
        by (simp_all add: init)
      with l have "Itmax S \<le> 1 + int k + 1" by simp
      with 1 bj show ?thesis by simp
    next
      case 2
      with l show ?thesis by (auto split: if_splits)
    qed
  qed
  have c2: "code = - 1"
    if all: "\<forall>j s'. rk5_path p s0 j = Some s' \<and> (j = 0 \<or> int j \<le> Itmax S) \<longrightarrow>
               rk_t s' < tnext \<and> \<not> rk5_zero_step s'"
  proof -
    from b have "k = 0 \<or> int k \<le> Itmax S" by auto
    with all r have "rk_t sk < tnext \<and> \<not> rk5_zero_step sk" by blast
    with l show ?thesis by simp
  qed
  have c3: "code = - 2 \<longrightarrow> (\<exists>j s'. rk5_path p s0 j = Some s' \<and> rk_t s' < tnext \<and> rk5_zero_step s')"
    using l r by (auto split: if_splits)
  have c4: "rk_t s' < tnext \<and> \<not> rk5_zero_step s'"
    if m: "code = - 1" and pj: "rk5_path p s0 j = Some s'" and bj: "j = 0 \<or> int j + 2 \<le> Itmax S"
    for j s'
  proof -
    from l m have sk: "rk_t sk < tnext" "\<not> rk5_zero_step sk" and lim: "Itmax S \<le> 1 + int k + 1"
      by (auto split: if_splits)
    from bj lim have "j \<le> k" by auto
    then consider "j < k" | "j = k" by linarith
    then show ?thesis
    proof cases
      case 1
      from rk5_path_prefix [OF r 1] pj show ?thesis by (simp add: init)
    next
      case 2
      with r pj sk show ?thesis by simp
    qed
  qed
  have c5: "code \<noteq> - 2 \<and> code \<noteq> - 1 \<longrightarrow>
      (\<exists>j s'. rk5_path p s0 j = Some s' \<and> \<not> rk_t s' < tnext \<and> code = 1 + 6 * int j)"
    using l r by (auto split: if_splits)
  from c1 c2 c3 c4 c5 show ?thesis
    unfolding st prod.case code_def [symmetric] rk5_zero_step_def [symmetric] by blast
qed

lemma late_interval_start:
  "rk5_start rk5_solver rk5_work0 (\<lambda>i. 1) 1 (10 ^ 9) (10 ^ 9 + 1) (1 / 10 ^ 7)
       (\<lambda>i. 1 / 100) (\<lambda>i. 1 / 1000) zero_rhs =
   (\<lparr>rk_n = 1, rk_tnext = 10 ^ 9 + 1, rk_hmax = 1, rk_adjust = True,
      rk_atol = (\<lambda>i. 1 / 100), rk_rtol = (\<lambda>i. 1 / 1000), rk_func = zero_rhs\<rparr>,
    rk5_work0\<lparr>rk_t := 10 ^ 9, rk_h := 1 / 10 ^ 7, rk_y := (\<lambda>i. 1), rk_htry := 1 / 10 ^ 7\<rparr>)"
  by (simp add: rk5_start_def Let_def rk5_work0_def zero_rhs_def call_func_def fmax_def fmin_def
      rk5_solver_def)

lemma quarter_steps_start:
  "rk5_start one_step_solver rk5_work0 (\<lambda>i. 1) 1 0 1 (1 / 4)
       (\<lambda>i. 1 / 100) (\<lambda>i. 1 / 1000) zero_rhs =
   (\<lparr>rk_n = 1, rk_tnext = 1, rk_hmax = 1, rk_adjust = False,
      rk_atol = (\<lambda>i. 1 / 100), rk_rtol = (\<lambda>i. 1 / 1000), rk_func = zero_rhs\<rparr>,
    rk5_work0\<lparr>rk_h := 1 / 4, rk_y := (\<lambda>i. 1), rk_htry := 1 / 4\<rparr>)"
  by (simp add: rk5_start_def Let_def rk5_work0_def zero_rhs_def call_func_def fmax_def fmin_def
      one_step_solver_def)

lemma quarter_steps_step:
  "rk5_step
     \<lparr>rk_n = 1, rk_tnext = 1, rk_hmax = 1, rk_adjust = False,
      rk_atol = (\<lambda>i. 1 / 100), rk_rtol = (\<lambda>i. 1 / 1000), rk_func = zero_rhs\<rparr>
     (rk5_work0\<lparr>rk_h := 1 / 4, rk_y := (\<lambda>i. 1), rk_htry := 1 / 4\<rparr>) =
   rk5_work0\<lparr>rk_t := 1 / 4, rk_h := 1 / 4, rk_y := (\<lambda>i. 1), rk_htry := 1 / 4,
     rk_Ynew := (\<lambda>i. if i = 1 then 1 else 0), rk_naccpt := 1\<rparr>"
  by (simp add: rk5_step_def rk5_stages_def rk5_stage7_def rk5_stage6_def rk5_stage5_def
      rk5_stage4_def rk5_stage3_def rk5_stage2_def rk5_limit_step_def rk5_error_def rk5_err_def
      rk5_accept_def rk5_rejected_def Let_def rk5_work0_def zero_rhs_def call_func_def
      vec_assign_def fmax_def fmin_def upt_one fun_eq_iff)

theorem rk5_integrate_return_code_witness:
  "fst short_interval = 7 \<and> fst late_interval = - 2 \<and> fst quarter_steps = - 1"
proof -
  let ?p = "\<lparr>rk_n = 1, rk_tnext = 1 / 10 ^ 9, rk_hmax = 1 / 10 ^ 9, rk_adjust = True,
      rk_atol = (\<lambda>i. 1 / 100), rk_rtol = (\<lambda>i. 1 / 1000), rk_func = zero_rhs\<rparr>"
  let ?s0 = "rk5_work0\<lparr>rk_h := 1 / 10 ^ 8, rk_y := (\<lambda>i. 1)\<rparr>"
  let ?s1 = "rk5_work0\<lparr>rk_t := 1 / 10 ^ 9, rk_h := 1 / 10 ^ 9, rk_y := (\<lambda>i. 1),
      rk_htry := 1 / 10 ^ 9, rk_Ynew := (\<lambda>i. if i = 1 then 1 else 0), rk_fac11 := 0,
      rk_naccpt := 1\<rparr>"
  have p1: "rk5_path ?p ?s0 1 = Some ?s1"
    using short_interval_step
    by (simp add: rk5_work0_def rk5_zero_step_def UROUND_def)
  have e1: "\<not> rk_t ?s1 < 1 / 10 ^ 9" by (simp add: rk5_work0_def)
  have b1: "(1::nat) = 0 \<or> int 1 + 2 \<le> Itmax rk5_solver" by (simp add: rk5_solver_def)
  have a: "fst short_interval = 1 + 6 * int 1"
    using rk5_integrate_return_code [where S = rk5_solver and work = rk5_work0 and y = "\<lambda>i. 1"
      and n = 1 and t = 0 and tnext = "1 / 10 ^ 9" and htry = 0 and atol = "\<lambda>i. 1 / 100"
      and rtol = "\<lambda>i. 1 / 1000" and func = zero_rhs] p1 e1 b1
    unfolding short_interval_start prod.case short_interval_def [symmetric] by blast
  let ?q = "\<lparr>rk_n = 1, rk_tnext = 10 ^ 9 + 1, rk_hmax = 1, rk_adjust = True,
      rk_atol = (\<lambda>i. 1 / 100), rk_rtol = (\<lambda>i. 1 / 1000), rk_func = zero_rhs\<rparr>"
  let ?t0 = "rk5_work0\<lparr>rk_t := 10 ^ 9, rk_h := 1 / 10 ^ 7, rk_y := (\<lambda>i. 1),
      rk_htry := 1 / 10 ^ 7\<rparr>"
  have p2: "rk5_path ?q ?t0 0 = Some ?t0" by simp
  have e2: "rk_t ?t0 < 10 ^ 9 + 1 \<and> 10 / 100 * \<bar>rk_h ?t0\<bar> \<le> \<bar>rk_t ?t0\<bar> * UROUND"
    by (simp add: rk5_work0_def UROUND_def)
  have b: "fst late_interval = - 2"
    using rk5_integrate_return_code [where S = rk5_solver and work = rk5_work0 and y = "\<lambda>i. 1"
      and n = 1 and t = "10 ^ 9" and tnext = "10 ^ 9 + 1" and htry = "1 / 10 ^ 7"
      and atol = "\<lambda>i. 1 / 100" and rtol = "\<lambda>i. 1 / 1000" and func = zero_rhs] p2 e2
    unfolding late_interval_start prod.case late_interval_def [symmetric] by blast
  let ?r = "\<lparr>rk_n = 1, rk_tnext = 1, rk_hmax = 1, rk_adjust = False,
      rk_atol = (\<lambda>i. 1 / 100), rk_rtol = (\<lambda>i. 1 / 1000), rk_func = zero_rhs\<rparr>"
  let ?u0 = "rk5_work0\<lparr>rk_h := 1 / 4, rk_y := (\<lambda>i. 1), rk_htry := 1 / 4\<rparr>"
  let ?u1 = "rk5_work0\<lparr>rk_t := 1 / 4, rk_h := 1 / 4, rk_y := (\<lambda>i. 1), rk_htry := 1 / 4,
     rk_Ynew := (\<lambda>i. if i = 1 then 1 else 0), rk_naccpt := 1\<rparr>"
  have p3: "rk5_path ?r ?u0 1 = Some ?u1"
    using quarter_steps_step by (simp add: rk5_work0_def rk5_zero_step_def UROUND_def)
  have g0: "rk_t ?u0 < 1 \<and> \<not> 10 / 100 * \<bar>rk_h ?u0\<bar> \<le> \<bar>rk_t ?u0\<bar> * UROUND"
    by (simp add: rk5_work0_def UROUND_def)
  have g1: "rk_t ?u1 < 1 \<and> \<not> 10 / 100 * \<bar>rk_h ?u1\<bar> \<le> \<bar>rk_t ?u1\<bar> * UROUND"
    by (simp add: rk5_work0_def UROUND_def)
  have all: "\<forall>j s'. rk5_path ?r ?u0 j = Some s' \<and> (j = 0 \<or> int j \<le> Itmax one_step_solver) \<longrightarrow>
      rk_t s' < 1 \<and> \<not> 10 / 100 * \<bar>rk_h s'\<bar> \<le> \<bar>rk_t s'\<bar> * UROUND"
  proof (intro allI impI)
    fix j s'
    assume h: "rk5_path ?r ?u0 j = Some s' \<and> (j = 0 \<or> int j \<le> Itmax one_step_solver)"
    then have "j = 0 \<or> j = 1" by (auto simp: one_step_solver_def)
    then show "rk_t s' < 1 \<and> \<not> 10 / 100 * \<bar>rk_h s'\<bar> \<le> \<bar>rk_t s'\<bar> * UROUND"
    proof
      assume "j = 0"
      with h have "s' = ?u0" by simp
      with g0 show ?thesis by simp
    next
      assume "j = 1"
      with h p3 have "s' = ?u1" by simp
      with g1 show ?thesis by simp
    qed
  qed
  have c: "fst quarter_steps = - 1"
    using rk5_integrate_return_code [where S = one_step_solver and work = rk5_work0
      and y = "\<lambda>i. 1" and n = 1 and t = 0 and tnext = 1 and htry = "1 / 4"
      and atol = "\<lambda>i. 1 / 100" and rtol = "\<lambda>i. 1 / 1000" and func = zero_rhs] all
    unfolding quarter_steps_start prod.case quarter_steps_def [symmetric] by blast
  from a b c show ?thesis by simp
qed

end
